theory Spec2Isabelle
  imports Main
begin

section \<open>Strings of the source language\<close>

text \<open>
  A JavaScript string is a sequence of UTF-16 code units; \<open>length\<close>, the regular
  expressions without the \<open>u\<close> flag and \<open>trim\<close> all work on code units. Texts (tweet
  bodies, captions) are therefore lists of code units, written as natural numbers.
  Identifiers, file names and format specifications are only compared, so they are plain
  \<open>string\<close>s.
\<close>

type_synonym jsstring = "nat list"

definition js :: "string \<Rightarrow> jsstring" where
  "js s = map of_char s"

text \<open>The character class \<open>\w\<close>: \<open>[A-Za-z0-9_]\<close>.\<close>

definition isWord :: "nat \<Rightarrow> bool" where
  "isWord c = ((65 \<le> c \<and> c \<le> 90) \<or> (97 \<le> c \<and> c \<le> 122) \<or> (48 \<le> c \<and> c \<le> 57) \<or> c = 95)"

text \<open>
  The character class \<open>\s\<close>, which is also what \<open>String.prototype.trim\<close> strips:
  white space and line terminators of ECMAScript.
\<close>

definition isSpace :: "nat \<Rightarrow> bool" where
  "isSpace c = (c = 9 \<or> c = 10 \<or> c = 11 \<or> c = 12 \<or> c = 13 \<or> c = 32 \<or> c = 160 \<or>
     c = 5760 \<or> (8192 \<le> c \<and> c \<le> 8202) \<or> c = 8232 \<or> c = 8233 \<or> c = 8239 \<or>
     c = 8287 \<or> c = 12288 \<or> c = 65279)"

definition startsWith :: "'a list \<Rightarrow> 'a list \<Rightarrow> bool" where
  "startsWith s p = (take (length p) s = p)"

definition sliceLast :: "nat \<Rightarrow> 'a list \<Rightarrow> 'a list" where
  \<comment> \<open>\<^verbatim>\<open>xs.slice(-n)\<close>; \<^verbatim>\<open>slice(-0)\<close> is \<^verbatim>\<open>slice(0)\<close>, the whole array.\<close>
  "sliceLast n xs = (if n = 0 then xs else drop (length xs - n) xs)"

definition endsWith :: "'a list \<Rightarrow> 'a list \<Rightarrow> bool" where
  "endsWith s p = (length p \<le> length s \<and> drop (length s - length p) s = p)"

section \<open>The deterministic text cleanup (auto-post-daily.ts, cleanTextBasic)\<close>

text \<open>
  \<^verbatim>\<open>text.replace(/https:\/\/t\.co\/\w+/g, '').replace(/\s+/g, ' ').trim()\<close>

  A global \<open>replace\<close> scans the subject once from left to right: at each position it
  tries the pattern, on a match it emits the replacement and goes on behind the match, and
  otherwise it copies one code unit. The replaced text is never scanned again.
\<close>

definition linkPrefix :: jsstring where
  "linkPrefix = js ''https://t.co/''"

text \<open>\<open>linkAt s\<close>: the pattern \<open>https:\/\/t\.co\/\w+\<close> matches at the start of \<open>s\<close>.\<close>

definition linkAt :: "jsstring \<Rightarrow> bool" where
  "linkAt s = (startsWith s linkPrefix \<and>
     (case drop (length linkPrefix) s of [] \<Rightarrow> False | c # _ \<Rightarrow> isWord c))"

text \<open>What is left of \<open>s\<close> behind the match: \<open>\w+\<close> is greedy.\<close>

definition afterLink :: "jsstring \<Rightarrow> jsstring" where
  "afterLink s = dropWhile isWord (drop (length linkPrefix) s)"

function removeLinks :: "jsstring \<Rightarrow> jsstring" where
  "removeLinks [] = []"
| "removeLinks (c # cs) =
     (if linkAt (c # cs) then removeLinks (afterLink (c # cs)) else c # removeLinks cs)"
  by pat_completeness auto
termination
proof (relation "measure length")
  show "wf (measure length)" by simp
next
  fix c :: nat and cs :: jsstring
  have "length (afterLink (c # cs)) \<le> length (drop (length linkPrefix) (c # cs))"
    unfolding afterLink_def by (rule length_dropWhile_le)
  also have "\<dots> < length (c # cs)"
    by (simp add: linkPrefix_def js_def)
  finally show "(afterLink (c # cs), c # cs) \<in> measure length" by simp
next
  fix c :: nat and cs :: jsstring
  show "(cs, c # cs) \<in> measure length" by simp
qed

text \<open>\<open>replace(/\s+/g, ' ')\<close>: every maximal run of white space becomes one space.\<close>

definition space :: nat where
  "space = 32"

function collapseSpaces :: "jsstring \<Rightarrow> jsstring" where
  "collapseSpaces [] = []"
| "collapseSpaces (c # cs) =
     (if isSpace c then space # collapseSpaces (dropWhile isSpace cs) else c # collapseSpaces cs)"
  by pat_completeness auto
termination
proof (relation "measure length")
  show "wf (measure length)" by simp
next
  fix c :: nat and cs :: jsstring
  have "length (dropWhile isSpace cs) \<le> length cs" by (rule length_dropWhile_le)
  then show "(dropWhile isSpace cs, c # cs) \<in> measure length" by simp
next
  fix c :: nat and cs :: jsstring
  show "(cs, c # cs) \<in> measure length" by simp
qed

definition trim :: "jsstring \<Rightarrow> jsstring" where
  "trim s = rev (dropWhile isSpace (rev (dropWhile isSpace s)))"

definition cleanTextBasic :: "jsstring \<Rightarrow> jsstring" where
  "cleanTextBasic text = trim (collapseSpaces (removeLinks text))"

text \<open>
  \<open>hasLink s\<close>: some substring of \<open>s\<close> matches the tracking-link pattern, that is, the
  pattern matches at some position of \<open>s\<close>.
\<close>

fun hasLink :: "jsstring \<Rightarrow> bool" where
  "hasLink [] = False"
| "hasLink (c # cs) = (linkAt (c # cs) \<or> hasLink cs)"

text \<open>
  The code units \<open>s\<close>, \<open>t\<close>, \<open>o\<close>, \<open>:\<close> and \<open>/\<close>: in \<open>https://t.co/\<close> they are the ones
  that stand directly before a code unit that is no word character.
\<close>

definition joinsLink :: "nat \<Rightarrow> bool" where
  "joinsLink c = (c = 115 \<or> c = 116 \<or> c = 111 \<or> c = 58 \<or> c = 47)"

text \<open>
  \<open>linksApart s\<close>: no match of the pattern in \<open>s\<close> comes directly after one of these five
  code units.
\<close>

fun linksApart :: "jsstring \<Rightarrow> bool" where
  "linksApart [] = True"
| "linksApart (c # cs) = ((linkAt cs \<longrightarrow> \<not> joinsLink c) \<and> linksApart cs)"

section \<open>Errors and external collaborators\<close>

text \<open>
  Every \<^verbatim>\<open>throw\<close> and \<^verbatim>\<open>reject\<close> of the two scripts is a constructor; a function that
  can throw returns \<open>error + 'a\<close>, with \<open>Inl\<close> for the exception.
\<close>

datatype error =
    OpenAIError
  | TwitterApiError
  | NoTweetsFound
  | NoValidImagePosts
  | FetchRejected
  | YouTubeApiError nat
  | ChannelNotFound
  | NoVideosFound
  | VideoNotFound
  | AlreadyPosted
  | YtDlpExit int
  | YtDlpSpawnError
  | DownloadedFilesNotFound
  | ListFilesFailed
  | AllFormatStrategiesFailed
  | WalletError
  | CoinCreationFailed
  | ENOENT
  | JsonSyntaxError
  | TypeError
  | WriteFailed
  | UnlinkFailed

record TwitterPost =
  tweet_id :: string
  tweet_text :: jsstring
  created_at :: int
  conversation_id :: string
  referenced_tweets :: "(string \<times> string) list option"
  media_keys :: "string list option"

text \<open>
  \<open>created_at\<close> is the time value that \<^verbatim>\<open>new Date(created_at).getTime()\<close> gives for the
  ISO date of the API. \<open>referenced_tweets\<close> holds pairs (type, id). \<open>media_keys\<close> is
  \<^verbatim>\<open>attachments?.media_keys\<close>. The \<^verbatim>\<open>public_metrics\<close> are only printed and are left out.
\<close>

record TwitterMedia =
  media_key :: string
  media_type :: string
  url :: "string option"

record YouTubeVideo =
  video_id :: string
  title :: jsstring
  description :: jsstring
  publishedAt :: string
  thumbnailUrl :: "string option"
  channelTitle :: string

text \<open>An item of the YouTube responses: the id and the snippet fields the scripts read.\<close>

record snippet =
  item_videoId :: string
  item_title :: jsstring
  item_description :: jsstring
  item_publishedAt :: string
  thumb_maxres :: "string option"
  thumb_high :: "string option"
  thumb_medium :: "string option"
  item_channelTitle :: string

text \<open>
  The outcome of \<^verbatim>\<open>fetch\<close> followed by \<^verbatim>\<open>response.json()\<close>: the promise rejects, the
  status is not ok, or a body arrives whose \<^verbatim>\<open>items\<close> are the list (a missing \<^verbatim>\<open>items\<close> is the
  empty list: the scripts treat both alike).
\<close>

datatype 'a http = Rejects | Status nat | Body "'a list"

datatype ai_request =
    CleanRequest jsstring bool
  | SummarizeRequest "jsstring list"
  | CaptionRequest jsstring jsstring

text \<open>How the spawned \<^verbatim>\<open>yt-dlp\<close> ends: an \<^verbatim>\<open>error\<close> event, or \<^verbatim>\<open>close\<close> with a code.\<close>

datatype proc_exit = SpawnError | Closed int

text \<open>
  The external collaborators of one run. \<open>openai\<close> is \<^verbatim>\<open>openai.responses.create\<close> and
  yields \<^verbatim>\<open>output_text\<close> (empty when absent) or throws; the prompt text built around the
  input is part of the collaborator. \<open>ytdlp\<close> gets the video id, the format and the files
  of the downloads directory, and yields how the process ended and the files afterwards.
  \<open>walletOk\<close>: the construction of account and clients at the start of the minting
  hand-off does not throw. \<open>createCoin\<close> is the upload of the metadata and the coin
  creation for a source item id with a description. \<open>unlinkOk\<close>: deleting that file of
  the downloads directory, when it exists, succeeds. \<open>writeFileOk\<close>: writing the ledger
  file succeeds. Creating the downloads directory, writing to the console and appending
  to the run log are taken to succeed: the failure taxonomy of the system has no case
  for them.
\<close>

record env =
  openai :: "ai_request \<Rightarrow> error + jsstring"
  userTimeline :: "error + TwitterPost list \<times> TwitterMedia list"
  fetchChannels :: "string http"
  fetchPlaylistItems :: "string \<Rightarrow> snippet http"
  fetchVideos :: "string \<Rightarrow> snippet http"
  ytdlp :: "string \<Rightarrow> string \<Rightarrow> string list \<Rightarrow> proc_exit \<times> string list"
  readdirOk :: bool
  walletOk :: bool
  createCoin :: "string \<Rightarrow> jsstring \<Rightarrow> error + string"
  unlinkOk :: "string \<Rightarrow> bool"
  writeFileOk :: bool
  now :: string

section \<open>The deduplication ledger\<close>

record PostedTweetRecord =
  tweetId :: string
  tweetCoinName :: string
  tweetZoraTransaction :: string
  tweetPostedAt :: string

record PostedVideoRecord =
  videoId :: string
  videoCoinName :: jsstring
  videoZoraTransaction :: string
  videoPostedAt :: string

text \<open>
  What the ledger file holds: nothing (no file, \<^verbatim>\<open>readFile\<close> throws), text that
  \<^verbatim>\<open>JSON.parse\<close> rejects, a JSON value that is not an array, or an array of records.
\<close>

datatype 'r ledger_file = NoFile | NotJson | NotArray | Records "'r list"

datatype 'r json = Array "'r list" | Other

definition readAndParse :: "'r ledger_file \<Rightarrow> error + 'r json" where
  "readAndParse f = (case f of
       NoFile \<Rightarrow> Inl ENOENT
     | NotJson \<Rightarrow> Inl JsonSyntaxError
     | NotArray \<Rightarrow> Inr Other
     | Records rs \<Rightarrow> Inr (Array rs))"

text \<open>
  \<^verbatim>\<open>loadPostedTweets\<close> and \<^verbatim>\<open>loadPostedVideos\<close>: the set of recorded ids; any exception
  (also the \<^verbatim>\<open>TypeError\<close> of \<^verbatim>\<open>records.map\<close> on a value that is no array) gives the empty
  set.
\<close>

definition loadPosted :: "('r \<Rightarrow> string) \<Rightarrow> 'r ledger_file \<Rightarrow> string set" where
  "loadPosted idOf f = (case readAndParse f of
       Inl e \<Rightarrow> {}
     | Inr Other \<Rightarrow> {}
     | Inr (Array records) \<Rightarrow> set (map idOf records))"

definition loadPostedTweets :: "PostedTweetRecord ledger_file \<Rightarrow> string set" where
  "loadPostedTweets = loadPosted tweetId"

definition loadPostedVideos :: "PostedVideoRecord ledger_file \<Rightarrow> string set" where
  "loadPostedVideos = loadPosted videoId"

text \<open>
  \<^verbatim>\<open>savePostedTweet\<close> and \<^verbatim>\<open>savePostedVideo\<close> differ in the file and in the bound (1000 and
  100) only. \<open>saveBody\<close> is the outer \<^verbatim>\<open>try\<close> block: the inner \<^verbatim>\<open>try\<close> starts from the empty
  array when reading or parsing throws; \<^verbatim>\<open>push\<close> throws on a value that is no array; a
  failed write leaves the file as it was.
\<close>

definition saveBody ::
  "nat \<Rightarrow> bool \<Rightarrow> 'r \<Rightarrow> 'r ledger_file \<Rightarrow> (error + unit) \<times> 'r ledger_file" where
  "saveBody bound writeOk record f =
     (let loaded = (case readAndParse f of Inl e \<Rightarrow> Array [] | Inr v \<Rightarrow> v)
      in case loaded of
           Other \<Rightarrow> (Inl TypeError, f)
         | Array records0 \<Rightarrow>
             (let records1 = records0 @ [record];
                  records2 = (if length records1 > bound then sliceLast bound records1
                              else records1)
              in if writeOk then (Inr (), Records records2) else (Inl WriteFailed, f)))"

text \<open>The outer \<^verbatim>\<open>catch\<close> prints the message and does not throw.\<close>

definition savePosted ::
  "nat \<Rightarrow> bool \<Rightarrow> 'r \<Rightarrow> 'r ledger_file \<Rightarrow> (error + unit) \<times> 'r ledger_file" where
  "savePosted bound writeOk record f =
     (case saveBody bound writeOk record f of
        (Inl e, f') \<Rightarrow> (Inr (), f')
      | (Inr u, f') \<Rightarrow> (Inr u, f'))"

definition savePostedTweet ::
  "env \<Rightarrow> PostedTweetRecord \<Rightarrow> PostedTweetRecord ledger_file
     \<Rightarrow> (error + unit) \<times> PostedTweetRecord ledger_file" where
  "savePostedTweet e = savePosted 1000 (writeFileOk e)"

definition savePostedVideo ::
  "env \<Rightarrow> PostedVideoRecord \<Rightarrow> PostedVideoRecord ledger_file
     \<Rightarrow> (error + unit) \<times> PostedVideoRecord ledger_file" where
  "savePostedVideo e = savePosted 100 (writeFileOk e)"

text \<open>The records a ledger file holds, as the load operations see them.\<close>

definition entries :: "'r ledger_file \<Rightarrow> 'r list" where
  "entries f = (case f of Records rs \<Rightarrow> rs | _ \<Rightarrow> [])"

text \<open>
  A sequence of record operations on one ledger, each with its own outcome of the
  write.
\<close>

fun recordAll :: "nat \<Rightarrow> (bool \<times> 'r) list \<Rightarrow> 'r ledger_file \<Rightarrow> 'r ledger_file" where
  "recordAll bound [] f = f"
| "recordAll bound ((ok, r) # ops) f = recordAll bound ops (snd (savePosted bound ok r f))"

section \<open>Content normalisation (auto-post-daily.ts)\<close>

text \<open>
  \<^verbatim>\<open>cleanAndOptimizeContent\<close>: the \<^verbatim>\<open>try\<close> block returns \<^verbatim>\<open>response.output_text || content\<close>,
  the \<^verbatim>\<open>catch\<close> block returns \<^verbatim>\<open>cleanTextBasic(content)\<close>. A timeout of the client is an
  exception of the call.
\<close>

definition cleanAndOptimizeContent :: "env \<Rightarrow> jsstring \<Rightarrow> bool \<Rightarrow> error + jsstring" where
  "cleanAndOptimizeContent e content isThread =
     (case openai e (CleanRequest content isThread) of
        Inr output_text \<Rightarrow> Inr (if output_text = [] then content else output_text)
      | Inl err \<Rightarrow> Inr (cleanTextBasic content))"

section \<open>Thread reconstruction (auto-post-daily.ts)\<close>

definition hasRepliedTo :: "TwitterPost \<Rightarrow> bool" where
  \<comment> \<open>\<^verbatim>\<open>tweet.referenced_tweets?.some(ref => ref.type === "replied_to")\<close>, undefined is falsy\<close>
  "hasRepliedTo tweet = (case referenced_tweets tweet of
       None \<Rightarrow> False
     | Some refs \<Rightarrow> list_ex (\<lambda>ref. fst ref = ''replied_to'') refs)"

definition isPartOfThread :: "TwitterPost \<Rightarrow> bool" where
  "isPartOfThread tweet =
     (let isReply = (conversation_id tweet \<noteq> tweet_id tweet)
      in hasRepliedTo tweet \<or> isReply)"

definition getThreadFromTimeline :: "string \<Rightarrow> TwitterPost list \<Rightarrow> TwitterPost list" where
  "getThreadFromTimeline conversationId timelineData =
     filter (\<lambda>tweet. conversation_id tweet = conversationId) timelineData"

definition findFirstTweet :: "TwitterPost list \<Rightarrow> TwitterPost option" where
  "findFirstTweet tweets = find (\<lambda>tweet. \<not> hasRepliedTo tweet) tweets"

text \<open>
  \<^verbatim>\<open>tweets.sort((a, b) => time(a) - time(b))\<close>: \<^verbatim>\<open>Array.prototype.sort\<close> is stable, and it
  sorts the array in place.
\<close>

definition sortThreadChronologically :: "TwitterPost list \<Rightarrow> TwitterPost list" where
  "sortThreadChronologically tweets = sort_key created_at tweets"

definition summarizeThread :: "env \<Rightarrow> TwitterPost list \<Rightarrow> error + jsstring" where
  "summarizeThread e tweets =
     (case openai e (SummarizeRequest (map tweet_text tweets)) of
        Inr output_text \<Rightarrow> Inr output_text
      | Inl err \<Rightarrow> Inr (cleanTextBasic (case tweets of [] \<Rightarrow> [] | t # _ \<Rightarrow> tweet_text t)))"

text \<open>
  The inner \<^verbatim>\<open>try\<close> block of \<^verbatim>\<open>processTwitterContent\<close>. \<^verbatim>\<open>findFirstTweet\<close> is called on
  \<^verbatim>\<open>threadTweets\<close> after \<^verbatim>\<open>sortThreadChronologically\<close> has sorted that very array, so it
  searches the sorted thread. \<^verbatim>\<open>firstTweet?.id || tweet.conversation_id\<close> takes the
  conversation id also when the id is the empty string.
\<close>

definition processThread ::
  "env \<Rightarrow> TwitterPost \<Rightarrow> TwitterPost list \<Rightarrow> error + jsstring \<times> string" where
  "processThread e tweet timelineData =
     (let threadTweets = getThreadFromTimeline (conversation_id tweet) timelineData
      in if length threadTweets \<le> 1 then
           (case cleanAndOptimizeContent e (tweet_text tweet) False of
              Inl err \<Rightarrow> Inl err
            | Inr cleanedContent \<Rightarrow> Inr (cleanedContent, tweet_id tweet))
         else
           (let sortedTweets = sortThreadChronologically threadTweets;
                firstTweet = findFirstTweet sortedTweets
            in case summarizeThread e sortedTweets of
                 Inl err \<Rightarrow> Inl err
               | Inr summary \<Rightarrow>
                   (case cleanAndOptimizeContent e summary True of
                      Inl err \<Rightarrow> Inl err
                    | Inr cleanedSummary \<Rightarrow>
                        Inr (cleanedSummary,
                             (case firstTweet of
                                None \<Rightarrow> conversation_id tweet
                              | Some ft \<Rightarrow> if tweet_id ft = [] then conversation_id tweet
                                           else tweet_id ft)))))"

text \<open>
  \<^verbatim>\<open>processTwitterContent\<close> with its two \<^verbatim>\<open>catch\<close> blocks: the inner one cleans the
  tweet's own text and answers the conversation id, the outer one answers the raw text
  and the tweet id.
\<close>

definition processTwitterContent ::
  "env \<Rightarrow> TwitterPost \<Rightarrow> TwitterPost list \<Rightarrow> error + jsstring \<times> string" where
  "processTwitterContent e tweet timelineData =
     (let body =
        (if \<not> isPartOfThread tweet then
           (case cleanAndOptimizeContent e (tweet_text tweet) False of
              Inl err \<Rightarrow> Inl err
            | Inr cleanedContent \<Rightarrow> Inr (cleanedContent, tweet_id tweet))
         else
           (case processThread e tweet timelineData of
              Inr r \<Rightarrow> Inr r
            | Inl err \<Rightarrow>
                (case cleanAndOptimizeContent e (tweet_text tweet) False of
                   Inl err' \<Rightarrow> Inl err'
                 | Inr cleanedContent \<Rightarrow> Inr (cleanedContent, conversation_id tweet))))
      in case body of
           Inr r \<Rightarrow> Inr r
         | Inl err \<Rightarrow> Inr (tweet_text tweet, tweet_id tweet))"

section \<open>The world of a run\<close>

text \<open>
  The calls a run makes to the downloader and to the minting hand-off, each with the
  item id and with its outcome.
\<close>

datatype call =
    Download string string "error + string \<times> string"
  | Mint string "error + string"

fun callId :: "call \<Rightarrow> string" where
  "callId (Download i f r) = i"
| "callId (Mint i r) = i"

fun isDownload :: "call \<Rightarrow> bool" where
  "isDownload (Download i f r) = True"
| "isDownload (Mint i r) = False"

datatype log_entry = SUCCESS string string | FAILED error

text \<open>
  The files a run touches: the two ledgers, the file names in the downloads directory
  (in the order \<^verbatim>\<open>readdir\<close> lists them), the two run logs; and the calls made so far.
\<close>

record world =
  postedTweetsFile :: "PostedTweetRecord ledger_file"
  postedVideosFile :: "PostedVideoRecord ledger_file"
  downloads :: "string list"
  dailyPostingLog :: "log_entry list"
  youtubePostingLog :: "log_entry list"
  calls :: "call list"

text \<open>
  How the process ends: \<^verbatim>\<open>main\<close> returns and the process ends with status 0, or
  \<^verbatim>\<open>process.exit\<close> is called with a status.
\<close>

datatype outcome = Completed | Exited nat

section \<open>The image pipeline (auto-post-daily.ts)\<close>

text \<open>The body of the \<^verbatim>\<open>for\<close> loop of \<^verbatim>\<open>getLatestImagePost\<close>, one \<^verbatim>\<open>continue\<close> per test.\<close>

definition replyToOther :: "jsstring \<Rightarrow> bool" where
  \<comment> \<open>\<^verbatim>\<open>text.startsWith('@')\<close>, \<^verbatim>\<open>/^@(\w+)/\<close> matches, and the name is not the account's own\<close>
  "replyToOther t =
     (startsWith t (js ''@'') \<and>
      (let name = takeWhile isWord (drop 1 t)
       in name \<noteq> [] \<and> name \<noteq> js ''tokenmetricsinc''))"

definition refsHaveType :: "string \<Rightarrow> TwitterPost \<Rightarrow> bool" where
  "refsHaveType ty tweet = (case referenced_tweets tweet of
       None \<Rightarrow> False
     | Some refs \<Rightarrow> list_ex (\<lambda>ref. fst ref = ty) refs)"

fun findImagePost ::
  "string set \<Rightarrow> TwitterMedia list \<Rightarrow> TwitterPost list \<Rightarrow> (TwitterPost \<times> string) option" where
  "findImagePost alreadyPosted mediaData [] = None"
| "findImagePost alreadyPosted mediaData (tweet # rest) =
     (if tweet_id tweet \<in> alreadyPosted then findImagePost alreadyPosted mediaData rest
      else if replyToOther (tweet_text tweet) then findImagePost alreadyPosted mediaData rest
      else if startsWith (tweet_text tweet) (js ''RT @'') \<or> refsHaveType ''retweeted'' tweet
        then findImagePost alreadyPosted mediaData rest
      else if refsHaveType ''quoted'' tweet then findImagePost alreadyPosted mediaData rest
      else (case media_keys tweet of
          None \<Rightarrow> findImagePost alreadyPosted mediaData rest
        | Some keys \<Rightarrow>
            (let tweetMedia = filter (\<lambda>media. media_key media \<in> set keys) mediaData;
                 hasVideo = list_ex (\<lambda>media. media_type media = ''video'' \<or>
                                              media_type media = ''animated_gif'') tweetMedia
             in if hasVideo then findImagePost alreadyPosted mediaData rest
                else (case find (\<lambda>media. media_type media = ''photo'') tweetMedia of
                    None \<Rightarrow> findImagePost alreadyPosted mediaData rest
                  | Some imageMedia \<Rightarrow>
                      (case url imageMedia of
                         None \<Rightarrow> findImagePost alreadyPosted mediaData rest
                       | Some u \<Rightarrow>
                           if u = [] then findImagePost alreadyPosted mediaData rest
                           else Some (tweet, u))))))"

definition getLatestImagePost ::
  "env \<Rightarrow> string set \<Rightarrow> error + TwitterPost \<times> string \<times> TwitterPost list" where
  "getLatestImagePost e alreadyPosted =
     (case userTimeline e of
        Inl err \<Rightarrow> Inl err
      | Inr (tweetData, mediaData) \<Rightarrow>
          if tweetData = [] then Inl NoTweetsFound
          else (case findImagePost alreadyPosted mediaData tweetData of
                  None \<Rightarrow> Inl NoValidImagePosts
                | Some (post, imageUrl) \<Rightarrow> Inr (post, imageUrl, tweetData)))"

text \<open>
  \<^verbatim>\<open>createZoraCoin\<close>: account and clients are made before the \<^verbatim>\<open>try\<close> block; the block
  uploads the metadata and creates the coin, and its \<^verbatim>\<open>catch\<close> throws the error again.
\<close>

definition createZoraCoin ::
  "env \<Rightarrow> TwitterPost \<Rightarrow> string \<Rightarrow> jsstring \<Rightarrow> string \<Rightarrow> world \<Rightarrow> (error + string) \<times> world" where
  "createZoraCoin e post imageUrl processedContent linkToPost w =
     (let r = (if \<not> walletOk e then Inl WalletError
               else createCoin e (tweet_id post) processedContent)
      in (r, w\<lparr>calls := calls w @ [Mint (tweet_id post) r]\<rparr>))"

text \<open>The \<^verbatim>\<open>try\<close> block of \<^verbatim>\<open>main\<close>.\<close>

definition tweetMainBody :: "env \<Rightarrow> world \<Rightarrow> (error + unit) \<times> world" where
  "tweetMainBody e w =
     (let alreadyPosted = loadPostedTweets (postedTweetsFile w)
      in case getLatestImagePost e alreadyPosted of
           Inl err \<Rightarrow> (Inl err, w)
         | Inr (post, imageUrl, timelineData) \<Rightarrow>
             (case processTwitterContent e post timelineData of
                Inl err \<Rightarrow> (Inl err, w)
              | Inr (content, firstTweetId) \<Rightarrow>
                  (let linkToPost = ''https://x.com/tokenmetricsinc/status/'' @ firstTweetId
                   in case createZoraCoin e post imageUrl content linkToPost w of
                        (Inl err, w1) \<Rightarrow> (Inl err, w1)
                      | (Inr txHash, w1) \<Rightarrow>
                          (let postIdHash = sliceLast 6 (tweet_id post);
                               coinName = ''tokenmetrics#'' @ postIdHash;
                               saved = savePostedTweet e
                                 \<lparr>tweetId = tweet_id post, tweetCoinName = coinName,
                                  tweetZoraTransaction = txHash, tweetPostedAt = now e\<rparr>
                                 (postedTweetsFile w1);
                               w2 = w1\<lparr>postedTweetsFile := snd saved\<rparr>
                           in case fst saved of
                                Inl err \<Rightarrow> (Inl err, w2)
                              | Inr u \<Rightarrow>
                                  (Inr (), w2\<lparr>dailyPostingLog := dailyPostingLog w2 @
                                                [SUCCESS (tweet_id post) txHash]\<rparr>)))))"

text \<open>\<^verbatim>\<open>main\<close>: the \<^verbatim>\<open>catch\<close> block appends the failure to the log and exits with 1.\<close>

definition tweetMain :: "env \<Rightarrow> world \<Rightarrow> outcome \<times> world" where
  "tweetMain e w =
     (case tweetMainBody e w of
        (Inr u, w') \<Rightarrow> (Completed, w')
      | (Inl err, w') \<Rightarrow>
          (Exited 1, w'\<lparr>dailyPostingLog := dailyPostingLog w' @ [FAILED err]\<rparr>))"

section \<open>The video pipeline (youtube-shorts-zora.ts)\<close>

definition pickThumbnail :: "snippet \<Rightarrow> string option" where
  \<comment> \<open>\<^verbatim>\<open>maxres?.url || high?.url || medium?.url\<close>: an empty string is falsy\<close>
  "pickThumbnail item =
     (let truthy = (\<lambda>u. case u of None \<Rightarrow> False | Some x \<Rightarrow> x \<noteq> [])
      in if truthy (thumb_maxres item) then thumb_maxres item
         else if truthy (thumb_high item) then thumb_high item
         else thumb_medium item)"

definition toVideo :: "snippet \<Rightarrow> YouTubeVideo" where
  "toVideo item =
     \<lparr>video_id = item_videoId item, title = item_title item,
      description = item_description item, publishedAt = item_publishedAt item,
      thumbnailUrl = pickThumbnail item, channelTitle = item_channelTitle item\<rparr>"

definition getSpecificVideo :: "env \<Rightarrow> string \<Rightarrow> error + YouTubeVideo" where
  "getSpecificVideo e videoId' =
     (case fetchVideos e videoId' of
        Rejects \<Rightarrow> Inl FetchRejected
      | Status n \<Rightarrow> Inl (YouTubeApiError n)
      | Body items \<Rightarrow>
          (case items of
             [] \<Rightarrow> Inl VideoNotFound
           | video # _ \<Rightarrow> Inr (toVideo video)))"

definition getLatestShorts :: "env \<Rightarrow> string set \<Rightarrow> error + YouTubeVideo" where
  "getLatestShorts e alreadyPosted =
     (case fetchChannels e of
        Rejects \<Rightarrow> Inl FetchRejected
      | Status n \<Rightarrow> Inl (YouTubeApiError n)
      | Body channels \<Rightarrow>
          (case channels of
             [] \<Rightarrow> Inl ChannelNotFound
           | uploadsPlaylistId # _ \<Rightarrow>
               (case fetchPlaylistItems e uploadsPlaylistId of
                  Rejects \<Rightarrow> Inl FetchRejected
                | Status n \<Rightarrow> Inl (YouTubeApiError n)
                | Body items \<Rightarrow>
                    (case items of
                       [] \<Rightarrow> Inl NoVideosFound
                     | item # _ \<Rightarrow>
                         if item_videoId item \<in> alreadyPosted then Inl AlreadyPosted
                         else Inr (toVideo item)))))"

text \<open>
  \<^verbatim>\<open>tryDownloadWithFormat\<close>: one spawn of the downloader, which is taken to end. After
  exit code 0 the two expected files are looked up (\<^verbatim>\<open>fs.access\<close>); when one is missing
  the directory is listed and the first file with the id as prefix and a fitting
  extension is taken for each kind. The outcome is added to the calls of the run.
\<close>

definition tryDownloadWithFormat ::
  "env \<Rightarrow> string \<Rightarrow> string \<Rightarrow> world \<Rightarrow> (error + string \<times> string) \<times> world" where
  "tryDownloadWithFormat e videoId' formatString w =
     (let (ended, files) = ytdlp e videoId' formatString (downloads w);
          r = (case ended of
                 SpawnError \<Rightarrow> Inl YtDlpSpawnError
               | Closed code \<Rightarrow>
                   if code = 0 then
                     (let videoPath = videoId' @ ''.mp4'';
                          thumbnailPath = videoId' @ ''.jpg'';
                          videoExists = (videoPath \<in> set files);
                          thumbExists = (thumbnailPath \<in> set files)
                      in if videoExists \<and> thumbExists then Inr (videoPath, thumbnailPath)
                         else if \<not> readdirOk e then Inl ListFilesFailed
                         else
                           (let videoFile = find (\<lambda>f. startsWith f videoId' \<and>
                                  (endsWith f ''.mp4'' \<or> endsWith f ''.webm'' \<or>
                                   endsWith f ''.mkv'')) files;
                                thumbFile = find (\<lambda>f. startsWith f videoId' \<and>
                                  endsWith f ''.jpg'') files
                            in case (videoFile, thumbFile) of
                                 (Some v, Some t) \<Rightarrow> Inr (v, t)
                               | _ \<Rightarrow> Inl DownloadedFilesNotFound))
                   else Inl (YtDlpExit code))
      in (r, w\<lparr>downloads := files, calls := calls w @ [Download videoId' formatString r]\<rparr>))"

definition formatStrategies :: "string list" where
  "formatStrategies =
     [''232+233-9/231+233-9/230+233-9'',
      ''232+233/231+233/230+233'',
      ''best[height<=720]'',
      ''best[ext=mp4]'',
      ''best'']"

text \<open>
  The \<^verbatim>\<open>for\<close> loop of \<^verbatim>\<open>downloadShortVideo\<close> over the strategies that are left: the
  first success is returned; the error of the last strategy is thrown; the \<^verbatim>\<open>throw\<close> behind
  the loop is reached with no strategy at all.
\<close>

fun tryStrategies ::
  "env \<Rightarrow> string \<Rightarrow> string list \<Rightarrow> world \<Rightarrow> (error + string \<times> string) \<times> world" where
  "tryStrategies e videoId' [] w = (Inl AllFormatStrategiesFailed, w)"
| "tryStrategies e videoId' (formatString # rest) w =
     (case tryDownloadWithFormat e videoId' formatString w of
        (Inr result, w') \<Rightarrow> (Inr result, w')
      | (Inl err, w') \<Rightarrow>
          if rest = [] then (Inl err, w') else tryStrategies e videoId' rest w')"

definition downloadShortVideo ::
  "env \<Rightarrow> string \<Rightarrow> world \<Rightarrow> (error + string \<times> string) \<times> world" where
  "downloadShortVideo e videoId' w = tryStrategies e videoId' formatStrategies w"

definition optimizeContentWithAI :: "env \<Rightarrow> jsstring \<Rightarrow> jsstring \<Rightarrow> error + jsstring" where
  "optimizeContentWithAI e t d =
     (case openai e (CaptionRequest t d) of
        Inr output_text \<Rightarrow> Inr (if output_text = [] then t else output_text)
      | Inl err \<Rightarrow> Inr t)"

text \<open>
  \<^verbatim>\<open>fs.unlink\<close> rejects when the file is absent, and it can reject for a file that exists.
\<close>

definition unlink :: "env \<Rightarrow> string \<Rightarrow> string list \<Rightarrow> error + string list" where
  "unlink e path files =
     (if path \<notin> set files then Inl ENOENT
      else if \<not> unlinkOk e path then Inl UnlinkFailed
      else Inr (removeAll path files))"

text \<open>
  The \<^verbatim>\<open>finally\<close> block of the hand-off: both \<^verbatim>\<open>unlink\<close> calls are in one \<^verbatim>\<open>try\<close>, so
  the second is skipped when the first throws; the \<^verbatim>\<open>catch\<close> only warns.
\<close>

definition cleanupFiles :: "env \<Rightarrow> string \<Rightarrow> string \<Rightarrow> string list \<Rightarrow> string list" where
  "cleanupFiles e videoPath thumbnailPath files =
     (case unlink e videoPath files of
        Inl err \<Rightarrow> files
      | Inr files1 \<Rightarrow>
          (case unlink e thumbnailPath files1 of
             Inl err \<Rightarrow> files1
           | Inr files2 \<Rightarrow> files2))"

text \<open>
  \<^verbatim>\<open>createZoraCoinWithVideo\<close>: account and clients are made before the \<^verbatim>\<open>try\<close> block, so
  an exception there leaves the function without the \<^verbatim>\<open>finally\<close> block. The \<^verbatim>\<open>try\<close> block
  asks for the caption, reads the two files, uploads and creates the coin.
\<close>

definition createZoraCoinWithVideo ::
  "env \<Rightarrow> YouTubeVideo \<Rightarrow> string \<Rightarrow> string \<Rightarrow> world \<Rightarrow> (error + string) \<times> world" where
  "createZoraCoinWithVideo e video videoPath thumbnailPath w =
     (if \<not> walletOk e then
        (Inl WalletError, w\<lparr>calls := calls w @ [Mint (video_id video) (Inl WalletError)]\<rparr>)
      else
        (let r = (case optimizeContentWithAI e (title video) (description video) of
                    Inl err \<Rightarrow> Inl err
                  | Inr optimizedContent \<Rightarrow>
                      if videoPath \<notin> set (downloads w) then Inl ENOENT
                      else if thumbnailPath \<notin> set (downloads w) then Inl ENOENT
                      else createCoin e (video_id video) optimizedContent)
         in (r, w\<lparr>downloads := cleanupFiles e videoPath thumbnailPath (downloads w),
                   calls := calls w @ [Mint (video_id video) r]\<rparr>)))"

text \<open>
  The command line: \<^verbatim>\<open>args[0]\<close> is absent or a string; \<^verbatim>\<open>!specificVideoId\<close> holds for
  the absent and for the empty argument.
\<close>

definition specificMode :: "string option \<Rightarrow> bool" where
  "specificMode arg = (case arg of None \<Rightarrow> False | Some v \<Rightarrow> v \<noteq> [])"

text \<open>
  The \<^verbatim>\<open>try\<close> block of \<^verbatim>\<open>main\<close>. With a video id the ledger is not loaded, so the
  test whether that video was posted before never holds (it would only print a warning),
  and nothing is recorded after the hand-off.
\<close>

definition videoMainBody :: "env \<Rightarrow> string option \<Rightarrow> world \<Rightarrow> (error + unit) \<times> world" where
  "videoMainBody e specificVideoId w =
     (let alreadyPosted = (if \<not> specificMode specificVideoId
                           then loadPostedVideos (postedVideosFile w) else {});
          target = (case specificVideoId of
                      None \<Rightarrow> getLatestShorts e alreadyPosted
                    | Some v \<Rightarrow> if v \<noteq> [] then getSpecificVideo e v
                                else getLatestShorts e alreadyPosted)
      in case target of
           Inl err \<Rightarrow> (Inl err, w)
         | Inr targetVideo \<Rightarrow>
             (case downloadShortVideo e (video_id targetVideo) w of
                (Inl err, w1) \<Rightarrow> (Inl err, w1)
              | (Inr (videoPath, thumbnailPath), w1) \<Rightarrow>
                  (case createZoraCoinWithVideo e targetVideo videoPath thumbnailPath w1 of
                     (Inl err, w2) \<Rightarrow> (Inl err, w2)
                   | (Inr txHash, w2) \<Rightarrow>
                       (let coinName = title targetVideo;
                            saved = (if \<not> specificMode specificVideoId then
                                       savePostedVideo e
                                         \<lparr>videoId = video_id targetVideo,
                                          videoCoinName = coinName,
                                          videoZoraTransaction = txHash,
                                          videoPostedAt = now e\<rparr>
                                         (postedVideosFile w2)
                                     else (Inr (), postedVideosFile w2));
                            w3 = w2\<lparr>postedVideosFile := snd saved\<rparr>
                        in case fst saved of
                             Inl err \<Rightarrow> (Inl err, w3)
                           | Inr u \<Rightarrow>
                               (Inr (), w3\<lparr>youtubePostingLog := youtubePostingLog w3 @
                                             [SUCCESS (video_id targetVideo) txHash]\<rparr>)))))"

definition videoMain :: "env \<Rightarrow> string option \<Rightarrow> world \<Rightarrow> outcome \<times> world" where
  "videoMain e specificVideoId w =
     (case videoMainBody e specificVideoId w of
        (Inr u, w') \<Rightarrow> (Completed, w')
      | (Inl err, w') \<Rightarrow>
          (Exited 1, w'\<lparr>youtubePostingLog := youtubePostingLog w' @ [FAILED err]\<rparr>))"

section \<open>Sample collaborators and inputs\<close>

text \<open>
  Collaborators that all fail (files can be deleted and written), and a world with no
  files: the concrete runs below change the fields they need.
\<close>

definition sampleEnv :: env where
  "sampleEnv =
     \<lparr>openai = (\<lambda>request. Inl OpenAIError),
      userTimeline = Inl TwitterApiError,
      fetchChannels = Rejects,
      fetchPlaylistItems = (\<lambda>playlist. Rejects),
      fetchVideos = (\<lambda>v. Rejects),
      ytdlp = (\<lambda>v formatString files. (SpawnError, files)),
      readdirOk = True,
      walletOk = True,
      createCoin = (\<lambda>v d. Inl CoinCreationFailed),
      unlinkOk = (\<lambda>path. True),
      writeFileOk = True,
      now = ''2025-01-01T00:00:00.000Z''\<rparr>"

definition emptyWorld :: world where
  "emptyWorld =
     \<lparr>postedTweetsFile = NoFile, postedVideosFile = NoFile, downloads = [],
      dailyPostingLog = [], youtubePostingLog = [], calls = []\<rparr>"

definition sampleTweet :: "string \<Rightarrow> string \<Rightarrow> int \<Rightarrow> bool \<Rightarrow> TwitterPost" where
  "sampleTweet i conversation t isReply =
     \<lparr>tweet_id = i, tweet_text = js ''gm'', created_at = t, conversation_id = conversation,
      referenced_tweets = (if isReply then Some [(''replied_to'', conversation)] else None),
      media_keys = Some [''k'' @ i]\<rparr>"

definition sampleRecord :: "string \<Rightarrow> PostedTweetRecord" where
  "sampleRecord i =
     \<lparr>tweetId = i, tweetCoinName = ''tokenmetrics#'' @ i, tweetZoraTransaction = ''0x1'',
      tweetPostedAt = ''2025-01-01T00:00:00.000Z''\<rparr>"

definition sampleVideoRecord :: "string \<Rightarrow> PostedVideoRecord" where
  "sampleVideoRecord i =
     \<lparr>videoId = i, videoCoinName = js ''Weekly recap'', videoZoraTransaction = ''0x1'',
      videoPostedAt = ''2025-01-01T00:00:00.000Z''\<rparr>"

definition samplePhoto :: "string \<Rightarrow> TwitterMedia" where
  "samplePhoto i =
     \<lparr>media_key = ''k'' @ i, media_type = ''photo'', url = Some (''https://pbs.example/'' @ i)\<rparr>"

definition sampleSnippet :: "string \<Rightarrow> snippet" where
  "sampleSnippet i =
     \<lparr>item_videoId = i, item_title = js ''Weekly recap'', item_description = js ''gm'',
      item_publishedAt = ''2025-01-01T00:00:00Z'', thumb_maxres = None, thumb_high = None,
      thumb_medium = None, item_channelTitle = ''Token Metrics''\<rparr>"

text \<open>
  \<open>tweetEnv\<close>: the timeline holds one fresh photo tweet and the coin is created.
  \<open>videoEnv\<close>: the latest video is \<open>vid\<close>, every format downloads both files and the
  coin is created. \<open>partialEnv\<close>: as \<open>videoEnv\<close>, but the downloader leaves the video
  file only, with exit code 0.
\<close>

definition tweetEnv :: env where
  "tweetEnv = sampleEnv
     \<lparr>userTimeline := Inr ([sampleTweet ''101'' ''101'' 10 False], [samplePhoto ''101'']),
      createCoin := (\<lambda>v d. Inr ''0xabc'')\<rparr>"

definition videoEnv :: env where
  "videoEnv = sampleEnv
     \<lparr>fetchChannels := Body [''UUtm''],
      fetchPlaylistItems := (\<lambda>playlist. Body [sampleSnippet ''vid'']),
      fetchVideos := (\<lambda>v. Body [sampleSnippet v]),
      ytdlp := (\<lambda>v formatString files. (Closed 0, files @ [v @ ''.mp4'', v @ ''.jpg''])),
      createCoin := (\<lambda>v d. Inr ''0xabc'')\<rparr>"

text \<open>\<open>thirdEnv\<close>: the first two formats end with exit code 1, the third downloads.\<close>

definition thirdEnv :: env where
  "thirdEnv = videoEnv
     \<lparr>ytdlp := (\<lambda>v formatString files.
        if formatString = ''best[height<=720]''
        then (Closed 0, files @ [v @ ''.mp4'', v @ ''.jpg''])
        else (Closed 1, files))\<rparr>"

definition partialEnv :: env where
  "partialEnv = videoEnv
     \<lparr>ytdlp := (\<lambda>v formatString files.
        (Closed 0, if v @ ''.mp4'' \<in> set files then files else files @ [v @ ''.mp4'']))\<rparr>"

section \<open>Notions used in the statements\<close>

text \<open>What the minting hand-off answers for an item id and a description.\<close>

definition mintResult :: "env \<Rightarrow> string \<Rightarrow> jsstring \<Rightarrow> error + string" where
  "mintResult e i content = (if \<not> walletOk e then Inl WalletError else createCoin e i content)"

text \<open>A run of a script starts with no call made.\<close>

definition tweetRun :: "env \<Rightarrow> world \<Rightarrow> outcome \<times> world" where
  "tweetRun e w = tweetMain e (w\<lparr>calls := []\<rparr>)"

definition videoRun :: "env \<Rightarrow> string option \<Rightarrow> world \<Rightarrow> outcome \<times> world" where
  "videoRun e specificVideoId w = videoMain e specificVideoId (w\<lparr>calls := []\<rparr>)"

text \<open>The video a run of the video script works on: the given one or the latest.\<close>

definition targetVideo :: "env \<Rightarrow> string option \<Rightarrow> world \<Rightarrow> error + YouTubeVideo" where
  "targetVideo e specificVideoId w =
     (case specificVideoId of
        None \<Rightarrow> getLatestShorts e (loadPostedVideos (postedVideosFile w))
      | Some v \<Rightarrow> if v \<noteq> [] then getSpecificVideo e v
                  else getLatestShorts e (loadPostedVideos (postedVideosFile w)))"

section \<open>Evaluation of concrete inputs\<close>

lemmas text_eval = cleanTextBasic_def js_def linkAt_def linkPrefix_def startsWith_def
  afterLink_def isWord_def isSpace_def trim_def space_def joinsLink_def

lemmas run_eval = videoRun_def videoMain_def videoMainBody_def tweetRun_def tweetMain_def
  tweetMainBody_def specificMode_def loadPostedVideos_def loadPostedTweets_def loadPosted_def
  readAndParse_def getLatestShorts_def getSpecificVideo_def toVideo_def pickThumbnail_def
  downloadShortVideo_def formatStrategies_def tryDownloadWithFormat_def
  createZoraCoinWithVideo_def optimizeContentWithAI_def cleanupFiles_def unlink_def
  savePostedVideo_def savePostedTweet_def savePosted_def saveBody_def sliceLast_def
  getLatestImagePost_def replyToOther_def refsHaveType_def startsWith_def endsWith_def
  processTwitterContent_def processThread_def isPartOfThread_def hasRepliedTo_def
  getThreadFromTimeline_def cleanAndOptimizeContent_def createZoraCoin_def
  sampleEnv_def videoEnv_def tweetEnv_def partialEnv_def thirdEnv_def emptyWorld_def sampleSnippet_def
  sampleTweet_def samplePhoto_def sampleRecord_def sampleVideoRecord_def js_def Let_def

section \<open>Properties of the text cleanup\<close>

lemma length_linkPrefix: "length linkPrefix = 13"
  by (simp add: linkPrefix_def js_def)

lemma linkPrefix_no_space: "c \<in> set linkPrefix \<Longrightarrow> \<not> isSpace c"
  by (auto simp: linkPrefix_def js_def isSpace_def)

lemma isWord_no_space: "isWord c \<Longrightarrow> \<not> isSpace c"
  by (auto simp: isWord_def isSpace_def)

lemma linkAt_iff: "linkAt s \<longleftrightarrow> (take 13 s = linkPrefix \<and> 13 < length s \<and> isWord (s ! 13))"
proof -
  have "(case drop 13 s of [] \<Rightarrow> False | c # _ \<Rightarrow> isWord c) = (13 < length s \<and> isWord (s ! 13))"
  proof (cases "drop 13 s")
    case Nil
    then show ?thesis by simp
  next
    case (Cons a list)
    then have "13 < length s" by (metis drop_eq_Nil list.distinct(1) not_le)
    moreover have "a = s ! 13" using Cons by (metis Cons_nth_drop_Suc calculation list.inject)
    ultimately show ?thesis using Cons by simp
  qed
  then show ?thesis by (simp add: linkAt_def startsWith_def length_linkPrefix)
qed

lemma linkAt_take: "linkAt s \<longleftrightarrow> linkAt (take 14 s)"
  by (auto simp: linkAt_iff)

lemma linkAt_no_space: assumes "linkAt s" "i < 14" shows "\<not> isSpace (s ! i)"
proof (cases "i < 13")
  case True
  from assms have t: "take 13 s = linkPrefix" by (simp add: linkAt_iff)
  have "s ! i = take 13 s ! i" using True by simp
  also have "\<dots> \<in> set linkPrefix" unfolding t using True by (simp add: length_linkPrefix)
  finally show ?thesis by (rule linkPrefix_no_space)
next
  case False
  with assms have "i = 13" by simp
  with assms show ?thesis by (simp add: linkAt_iff isWord_no_space)
qed

lemma linkAt_hd: "linkAt (c # cs) \<Longrightarrow> c = 104"
  by (simp add: linkAt_def startsWith_def linkPrefix_def js_def)

lemma linkAt_append: "linkAt s \<Longrightarrow> linkAt (s @ t)"
  by (simp add: linkAt_iff nth_append)

lemma hasLink_iff: "hasLink s \<longleftrightarrow> (\<exists>j. linkAt (drop j s))"
proof (induction s)
  case Nil
  then show ?case by (simp add: linkAt_iff)
next
  case (Cons c cs)
  show ?case
  proof
    assume "hasLink (c # cs)"
    then consider "linkAt (c # cs)" | "hasLink cs" by auto
    then show "\<exists>j. linkAt (drop j (c # cs))"
    proof cases
      case 1
      then have "linkAt (drop 0 (c # cs))" by simp
      then show ?thesis by blast
    next
      case 2
      with Cons obtain j where "linkAt (drop j cs)" by blast
      then have "linkAt (drop (Suc j) (c # cs))" by simp
      then show ?thesis by blast
    qed
  next
    assume "\<exists>j. linkAt (drop j (c # cs))"
    then obtain j where j: "linkAt (drop j (c # cs))" by blast
    show "hasLink (c # cs)"
    proof (cases j)
      case 0
      with j show ?thesis by simp
    next
      case (Suc k)
      with j have "linkAt (drop k cs)" by simp
      with Cons show ?thesis by auto
    qed
  qed
qed

lemma hasLink_suffix: "hasLink ys \<Longrightarrow> hasLink (xs @ ys)"
  by (induction xs) auto

lemma hasLink_prefix: "hasLink xs \<Longrightarrow> hasLink (xs @ ys)"
proof (induction xs)
  case Nil
  then show ?case by simp
next
  case (Cons c cs)
  then show ?case using linkAt_append [of "c # cs" ys] by auto
qed

lemma linksApart_suffix: "linksApart (xs @ ys) \<Longrightarrow> linksApart ys"
  by (induction xs) auto

lemma linksApart_nth:
  "linksApart s \<Longrightarrow> linkAt (drop (Suc i) s) \<Longrightarrow> i < length s \<Longrightarrow> \<not> joinsLink (s ! i)"
proof (induction s arbitrary: i)
  case Nil
  then show ?case by simp
next
  case (Cons c cs)
  then show ?case by (cases i) auto
qed

lemma linkPrefix_joins:
  "\<forall>k \<in> set [0..<12]. \<not> isWord (linkPrefix ! Suc k) \<longrightarrow> joinsLink (linkPrefix ! k)"
  by code_simp

lemma afterLink_head: "afterLink s = x # r \<Longrightarrow> \<not> isWord x"
  unfolding afterLink_def by (metis hd_dropWhile list.distinct(1) list.sel(1))

lemma removeLinks_first_link:
  "(\<forall>i<j. \<not> linkAt (drop i s)) \<Longrightarrow> linkAt (drop j s) \<Longrightarrow>
   removeLinks s = take j s @ removeLinks (afterLink (drop j s))"
proof (induction j arbitrary: s)
  case 0
  then have l: "linkAt s" by simp
  then obtain c cs where s: "s = c # cs" by (cases s) (auto simp: linkAt_iff)
  with l show ?case by simp
next
  case (Suc j)
  from Suc.prems(2) obtain c cs where s: "s = c # cs" by (cases s) (auto simp: linkAt_iff)
  from Suc.prems(1) have "\<not> linkAt (drop 0 s)" by blast
  then have nl: "\<not> linkAt (c # cs)" using s by simp
  have "\<forall>i<j. \<not> linkAt (drop i cs)"
  proof (intro allI impI)
    fix i assume "i < j"
    then have "\<not> linkAt (drop (Suc i) s)" using Suc.prems(1) by simp
    then show "\<not> linkAt (drop i cs)" using s by simp
  qed
  moreover have "linkAt (drop j cs)" using Suc.prems(2) s by simp
  ultimately have "removeLinks cs = take j cs @ removeLinks (afterLink (drop j cs))"
    by (rule Suc.IH)
  then show ?case using s nl by simp
qed

lemma afterLink_suffix: "\<exists>p. s = p @ afterLink s"
proof -
  have "s = take 13 s @ takeWhile isWord (drop 13 s) @ afterLink s"
    by (simp add: afterLink_def length_linkPrefix)
  then show ?thesis by (metis append.assoc)
qed

lemma removeLinks_take:
  "(\<forall>j<n. \<not> linkAt (drop j s)) \<Longrightarrow> take n (removeLinks s) = take n s"
proof (induction n arbitrary: s)
  case 0
  then show ?case by simp
next
  case (Suc n)
  show ?case
  proof (cases s)
    case Nil
    then show ?thesis by simp
  next
    case (Cons c cs)
    from Suc.prems have "\<not> linkAt (drop 0 s)" by blast
    then have nl: "\<not> linkAt (c # cs)" using Cons by simp
    have "\<forall>j<n. \<not> linkAt (drop j cs)"
    proof (intro allI impI)
      fix j assume "j < n"
      then have "\<not> linkAt (drop (Suc j) s)" using Suc.prems by simp
      then show "\<not> linkAt (drop j cs)" using Cons by simp
    qed
    then have "take n (removeLinks cs) = take n cs" by (rule Suc.IH)
    then show ?thesis using Cons nl by simp
  qed
qed

lemma length_removeLinks: "length (removeLinks s) \<le> length s"
proof (induction s rule: removeLinks.induct)
  case 1
  then show ?case by simp
next
  case (2 c cs)
  show ?case
  proof (cases "linkAt (c # cs)")
    case True
    obtain p where p: "c # cs = p @ afterLink (c # cs)" using afterLink_suffix by blast
    have "length (afterLink (c # cs)) \<le> length (c # cs)"
      by (metis p length_append le_add2)
    with 2 True show ?thesis by simp
  next
    case False
    with 2 show ?thesis by simp
  qed
qed

lemma removeLinks_no_link: "linksApart s \<Longrightarrow> \<not> hasLink (removeLinks s)"
proof (induction s rule: removeLinks.induct)
  case 1
  then show ?case by simp
next
  case (2 c cs)
  show ?case
  proof (cases "linkAt (c # cs)")
    case True
    obtain p where p: "c # cs = p @ afterLink (c # cs)" using afterLink_suffix by blast
    from "2.prems" have "linksApart (afterLink (c # cs))"
      by (metis p linksApart_suffix)
    with 2 True show ?thesis by simp
  next
    case False
    from "2.prems" have d: "linksApart cs" by simp
    then have ih: "\<not> hasLink (removeLinks cs)" using 2 False by simp
    have "\<not> linkAt (c # removeLinks cs)"
    proof
      assume L: "linkAt (c # removeLinks cs)"
      show False
      proof (cases "\<forall>j<13. \<not> linkAt (drop j cs)")
        case True
        then have "take 13 (removeLinks cs) = take 13 cs" by (rule removeLinks_take)
        then have "take 14 (c # removeLinks cs) = take 14 (c # cs)" by simp
        then have "linkAt (c # cs)" using L linkAt_take by metis
        with False show False by simp
      next
        case False
        then have ex: "\<exists>j. j < 13 \<and> linkAt (drop j cs)" by blast
        define j where "j = (LEAST j. j < 13 \<and> linkAt (drop j cs))"
        have j: "j < 13 \<and> linkAt (drop j cs)"
          unfolding j_def using ex by (rule LeastI_ex)
        have least: "\<forall>i<j. \<not> linkAt (drop i cs)"
        proof (intro allI impI notI)
          fix i assume "i < j" "linkAt (drop i cs)"
          then have "i < 13 \<and> linkAt (drop i cs)" using j by simp
          then have "j \<le> i" unfolding j_def by (rule Least_le)
          with \<open>i < j\<close> show False by simp
        qed
        define out where "out = c # removeLinks cs"
        define rest where "rest = afterLink (drop j cs)"
        have jl: "j < length cs" using j by (auto simp: linkAt_iff)
        have R: "removeLinks cs = take j cs @ removeLinks rest"
          unfolding rest_def using least j by (intro removeLinks_first_link) auto
        have tk: "length (take j cs) = j" using jl by simp
        have Lo: "take 13 out = linkPrefix" "13 < length out" "isWord (out ! 13)"
          using L unfolding out_def by (simp_all add: linkAt_iff)
        have "length out = Suc (j + length (removeLinks rest))"
          unfolding out_def R using tk by simp
        with Lo(2) j have "removeLinks rest \<noteq> []" by auto
        then obtain x r where xr: "rest = x # r" by (cases rest) auto
        then have nw: "\<not> isWord x" unfolding rest_def by (rule afterLink_head)
        have "\<not> linkAt (x # r)"
        proof
          assume "linkAt (x # r)"
          then have "x = 104" by (rule linkAt_hd)
          with nw show False by (simp add: isWord_def)
        qed
        then have "removeLinks rest = x # removeLinks r" using xr by simp
        then have "removeLinks cs ! j = x" unfolding R using tk by (simp add: nth_append)
        then have oj: "out ! Suc j = x" unfolding out_def by simp
        have same: "out ! j = (c # cs) ! j"
        proof (cases j)
          case 0
          then show ?thesis unfolding out_def by simp
        next
          case (Suc k)
          then have "removeLinks cs ! k = cs ! k" unfolding R using tk by (simp add: nth_append)
          then show ?thesis unfolding out_def using Suc by simp
        qed
        have j12: "j < 12"
        proof (rule ccontr)
          assume "\<not> j < 12"
          with j have "Suc j = 13" by simp
          with oj Lo(3) nw show False by simp
        qed
        have "out ! Suc j = take 13 out ! Suc j" using j12 by simp
        then have p1: "out ! Suc j = linkPrefix ! Suc j" unfolding Lo(1) .
        have "out ! j = take 13 out ! j" using j12 by simp
        then have p0: "out ! j = linkPrefix ! j" unfolding Lo(1) .
        have "j \<in> set [0..<12]" using j12 by simp
        moreover have "\<not> isWord (linkPrefix ! Suc j)" using p1 oj nw by simp
        ultimately have "joinsLink (linkPrefix ! j)" using linkPrefix_joins by blast
        then have "joinsLink ((c # cs) ! j)" using p0 same by simp
        moreover have "\<not> joinsLink ((c # cs) ! j)"
        proof (rule linksApart_nth)
          show "linksApart (c # cs)" by (rule "2.prems")
          show "linkAt (drop (Suc j) (c # cs))" using j by simp
          show "j < length (c # cs)" using jl by simp
        qed
        ultimately show False by simp
      qed
    qed
    with ih False show ?thesis by simp
  qed
qed

lemma isSpace_32: "isSpace space"
  by (simp add: isSpace_def space_def)

lemma collapseSpaces_take:
  "(\<forall>c \<in> set (take n (collapseSpaces s)). \<not> isSpace c) \<Longrightarrow> take n (collapseSpaces s) = take n s"
proof (induction n arbitrary: s)
  case 0
  then show ?case by simp
next
  case (Suc n)
  show ?case
  proof (cases s)
    case Nil
    then show ?thesis by simp
  next
    case (Cons c cs)
    show ?thesis
    proof (cases "isSpace c")
      case True
      then have "collapseSpaces s = space # collapseSpaces (dropWhile isSpace cs)"
        using Cons by simp
      then have "space \<in> set (take (Suc n) (collapseSpaces s))"
        by (simp only: take_Suc_Cons list.set insertI1)
      with Suc.prems have "\<not> isSpace space" by blast
      then show ?thesis using isSpace_32 by contradiction
    next
      case False
      with Suc.prems Cons have "\<forall>c \<in> set (take n (collapseSpaces cs)). \<not> isSpace c" by simp
      then have "take n (collapseSpaces cs) = take n cs" by (rule Suc.IH)
      with False Cons show ?thesis by simp
    qed
  qed
qed

lemma hasLink_dropWhile: "hasLink (dropWhile P s) \<Longrightarrow> hasLink s"
  by (metis hasLink_suffix takeWhile_dropWhile_id)

lemma collapseSpaces_hasLink: "hasLink (collapseSpaces s) \<Longrightarrow> hasLink s"
proof (induction s rule: collapseSpaces.induct)
  case 1
  then show ?case by simp
next
  case (2 c cs)
  show ?case
  proof (cases "isSpace c")
    case True
    have "\<not> linkAt (space # collapseSpaces (dropWhile isSpace cs))"
      using linkAt_hd [of space] by (auto simp: space_def)
    with "2.prems" True have "hasLink (collapseSpaces (dropWhile isSpace cs))" by simp
    with 2 True have "hasLink (dropWhile isSpace cs)" by simp
    then have "hasLink cs" by (rule hasLink_dropWhile)
    then show ?thesis by simp
  next
    case False
    with "2.prems" consider "linkAt (c # collapseSpaces cs)" | "hasLink (collapseSpaces cs)"
      by auto
    then show ?thesis
    proof cases
      case 1
      have "\<forall>d \<in> set (take 13 (collapseSpaces cs)). \<not> isSpace d"
      proof
        fix d assume "d \<in> set (take 13 (collapseSpaces cs))"
        then obtain i where i: "i < length (take 13 (collapseSpaces cs))"
          "d = take 13 (collapseSpaces cs) ! i" by (metis in_set_conv_nth)
        then have "i < 13" by simp
        then have "d = (c # collapseSpaces cs) ! Suc i" using i by simp
        moreover have "\<not> isSpace ((c # collapseSpaces cs) ! Suc i)"
          using 1 \<open>i < 13\<close> by (intro linkAt_no_space) auto
        ultimately show "\<not> isSpace d" by simp
      qed
      then have "take 13 (collapseSpaces cs) = take 13 cs" by (rule collapseSpaces_take)
      then have "take 14 (c # collapseSpaces cs) = take 14 (c # cs)" by simp
      then have "linkAt (c # cs)" using 1 linkAt_take by metis
      then show ?thesis by simp
    next
      case 2
      with "2.IH" False have "hasLink cs" by simp
      then show ?thesis by simp
    qed
  qed
qed

lemma rev_dropWhile_rev_prefix: "\<exists>q. u = rev (dropWhile P (rev u)) @ q"
proof -
  have "rev (rev u) = rev (takeWhile P (rev u) @ dropWhile P (rev u))" by simp
  then have "u = rev (dropWhile P (rev u)) @ rev (takeWhile P (rev u))"
    by (simp only: rev_append rev_rev_ident)
  then show ?thesis ..
qed

lemma trim_hasLink: "hasLink (trim s) \<Longrightarrow> hasLink s"
proof -
  assume h: "hasLink (trim s)"
  obtain q where "dropWhile isSpace s = trim s @ q"
    unfolding trim_def using rev_dropWhile_rev_prefix by blast
  then have "hasLink (dropWhile isSpace s)" using h hasLink_prefix by metis
  then show ?thesis by (rule hasLink_dropWhile)
qed

lemma length_collapseSpaces: "length (collapseSpaces s) \<le> length s"
proof (induction s rule: collapseSpaces.induct)
  case 1
  then show ?case by simp
next
  case (2 c cs)
  have "length (dropWhile isSpace cs) \<le> length cs" by (rule length_dropWhile_le)
  with 2 show ?case by (cases "isSpace c") auto
qed

lemma length_trim: "length (trim s) \<le> length s"
proof -
  have "length (trim s) \<le> length (dropWhile isSpace s)"
    unfolding trim_def using length_dropWhile_le [of isSpace "rev (dropWhile isSpace s)"] by simp
  also have "\<dots> \<le> length s" by (rule length_dropWhile_le)
  finally show ?thesis .
qed

lemma length_cleanTextBasic: "length (cleanTextBasic t) \<le> length t"
  unfolding cleanTextBasic_def
  using length_trim [of "collapseSpaces (removeLinks t)"] length_collapseSpaces [of "removeLinks t"]
    length_removeLinks [of t] by linarith

lemma cleanTextBasic_no_link: "linksApart t \<Longrightarrow> \<not> hasLink (cleanTextBasic t)"
  unfolding cleanTextBasic_def
  using trim_hasLink collapseSpaces_hasLink removeLinks_no_link by blast

lemma removeLinks_plain: "\<forall>c \<in> set s. c \<noteq> 104 \<Longrightarrow> removeLinks s = s"
proof (induction s)
  case Nil
  then show ?case by simp
next
  case (Cons c cs)
  then have "\<not> linkAt (c # cs)" using linkAt_hd by fastforce
  with Cons show ?case by simp
qed

lemma collapseSpaces_plain: "\<forall>c \<in> set s. \<not> isSpace c \<Longrightarrow> collapseSpaces s = s"
  by (induction s) auto

lemma dropWhile_plain: "\<forall>c \<in> set s. \<not> P c \<Longrightarrow> dropWhile P s = s"
  by (cases s) auto

lemma trim_plain: "\<forall>c \<in> set s. \<not> isSpace c \<Longrightarrow> trim s = s"
  by (simp add: trim_def dropWhile_plain)

text \<open>
  Claim C3, as amended. \<^verbatim>\<open>cleanAndOptimizeContent\<close> never throws. When the language
  service throws (a timeout is such an exception) the result is the regular-expression
  cleanup of the input; when the service answers with an empty text the result is the
  input itself, not cleaned. Nothing makes the result non-empty.
\<close>

theorem normalize_fallback:
  "(\<exists>out. cleanAndOptimizeContent e content isThread = Inr out) \<and>
   (\<forall>err. openai e (CleanRequest content isThread) = Inl err \<longrightarrow>
      cleanAndOptimizeContent e content isThread = Inr (cleanTextBasic content)) \<and>
   (openai e (CleanRequest content isThread) = Inr [] \<longrightarrow>
      cleanAndOptimizeContent e content isThread = Inr content)"
  by (auto simp: cleanAndOptimizeContent_def split: sum.splits)

theorem normalize_fallback_witness:
  "cleanAndOptimizeContent sampleEnv (js ''gm  https://t.co/abc12 '') False = Inr (js ''gm'') \<and>
   cleanAndOptimizeContent (sampleEnv\<lparr>openai := (\<lambda>request. Inr [])\<rparr>) (js ''a  b'') True
     = Inr (js ''a  b'')"
proof -
  have a: "openai sampleEnv (CleanRequest (js ''gm  https://t.co/abc12 '') False) = Inl OpenAIError"
    by (simp add: sampleEnv_def)
  have b: "openai (sampleEnv\<lparr>openai := (\<lambda>request. Inr [])\<rparr>) (CleanRequest (js ''a  b'') True) = Inr []"
    by simp
  have c: "cleanTextBasic (js ''gm  https://t.co/abc12 '') = js ''gm''"
    by (simp add: text_eval)
  from a b c show ?thesis
    using normalize_fallback [of sampleEnv "js ''gm  https://t.co/abc12 ''" False]
      normalize_fallback [of "sampleEnv\<lparr>openai := (\<lambda>request. Inr [])\<rparr>" "js ''a  b''" True]
    by simp
qed

text \<open>
  The claim as first stated fails: on an empty answer the input is returned as it is, which
  is not its cleanup; and the cleanup of a text that is only a tracking link is empty.
\<close>

theorem normalize_fallback_counterexample:
  "cleanAndOptimizeContent (sampleEnv\<lparr>openai := (\<lambda>request. Inr [])\<rparr>) (js ''a  b'') False
     \<noteq> Inr (cleanTextBasic (js ''a  b'')) \<and>
   cleanAndOptimizeContent sampleEnv (js ''https://t.co/abc12'') False = Inr []"
  by (simp add: cleanAndOptimizeContent_def sampleEnv_def text_eval)

text \<open>
  Claim C4, as amended. The output of the fallback cleanup is never longer than its
  input, so it is within the character budget whenever the input is (the cleanup cuts
  nothing to a budget). The output has no match of the tracking-link pattern whenever
  no match in the input comes directly after one of the characters \<open>s\<close>, \<open>t\<close>, \<open>o\<close>, \<open>:\<close>
  and \<open>/\<close>.
\<close>

theorem fallback_length_and_links:
  "length (cleanTextBasic t) \<le> length t \<and>
   (length t \<le> budget \<longrightarrow> length (cleanTextBasic t) \<le> budget) \<and>
   (linksApart t \<longrightarrow> \<not> hasLink (cleanTextBasic t))"
  using length_cleanTextBasic [of t] cleanTextBasic_no_link [of t] by auto

theorem fallback_length_and_links_witness:
  "linksApart (js ''Read (https://t.co/abc12) now'') \<and>
   cleanTextBasic (js ''Read (https://t.co/abc12) now'') = js ''Read () now'' \<and>
   \<not> hasLink (cleanTextBasic (js ''Read (https://t.co/abc12) now'')) \<and>
   length (js ''Read (https://t.co/abc12) now'') \<le> 250 \<and>
   length (cleanTextBasic (js ''Read (https://t.co/abc12) now'')) \<le> 250"
proof -
  have d: "linksApart (js ''Read (https://t.co/abc12) now'')"
    by (simp add: text_eval)
  have l: "length (js ''Read (https://t.co/abc12) now'') \<le> 250"
    by (simp add: js_def)
  have c: "cleanTextBasic (js ''Read (https://t.co/abc12) now'') = js ''Read () now''"
    by (simp add: text_eval)
  from d l c show ?thesis
    using fallback_length_and_links [of "js ''Read (https://t.co/abc12) now''" 250] by simp
qed

text \<open>
  The claim as first stated fails: 251 letters stay 251 letters, and removing a link
  that directly follows \<open>s\<close>, \<open>:\<close>, \<open>/\<close>, \<open>t\<close> or \<open>o\<close> can join the text around it into a new link.
\<close>

theorem fallback_length_and_links_counterexample:
  "250 < length (cleanTextBasic (replicate 251 97)) \<and>
   hasLink (cleanTextBasic (js ''httpshttps://t.co/abc://t.co/x'')) \<and>
   hasLink (cleanTextBasic (js ''https:https://t.co/abc//t.co/x'')) \<and>
   hasLink (cleanTextBasic (js ''https:/https://t.co/abc/t.co/x'')) \<and>
   hasLink (cleanTextBasic (js ''https://thttps://t.co/abc.co/x'')) \<and>
   hasLink (cleanTextBasic (js ''https://t.cohttps://t.co/abc/x''))"
proof -
  have p: "\<forall>c \<in> set (replicate 251 (97::nat)). c \<noteq> 104" by simp
  have q: "\<forall>c \<in> set (replicate 251 (97::nat)). \<not> isSpace c" by (simp add: isSpace_def)
  have "cleanTextBasic (replicate 251 97) = replicate 251 97"
    unfolding cleanTextBasic_def
    by (simp only: removeLinks_plain [OF p] collapseSpaces_plain [OF q] trim_plain [OF q])
  then have a: "250 < length (cleanTextBasic (replicate 251 97))" by simp
  have b: "hasLink (cleanTextBasic (js ''httpshttps://t.co/abc://t.co/x''))"
    by (simp add: text_eval)
  have c: "hasLink (cleanTextBasic (js ''https:https://t.co/abc//t.co/x''))"
    by (simp add: text_eval)
  have d: "hasLink (cleanTextBasic (js ''https:/https://t.co/abc/t.co/x''))"
    by (simp add: text_eval)
  have e: "hasLink (cleanTextBasic (js ''https://thttps://t.co/abc.co/x''))"
    by (simp add: text_eval)
  have f: "hasLink (cleanTextBasic (js ''https://t.cohttps://t.co/abc/x''))"
    by (simp add: text_eval)
  from a b c d e f show ?thesis by (intro conjI)
qed

section \<open>Properties of the ledger operations\<close>

lemma savePosted_cases:
  "savePosted K ok r f =
     (Inr (), if ok then (case f of NotArray \<Rightarrow> NotArray
                          | Records rs \<Rightarrow> Records (if length (rs @ [r]) > K then sliceLast K (rs @ [r]) else rs @ [r])
                          | _ \<Rightarrow> Records (if length [r] > K then sliceLast K [r] else [r]))
              else f)"
  by (cases f) (simp_all add: savePosted_def saveBody_def readAndParse_def)

lemma savePosted_returns: "fst (savePosted K ok r f) = Inr ()"
  by (simp add: savePosted_cases)

lemma length_sliceLast: "0 < K \<Longrightarrow> length (sliceLast K xs) \<le> K"
  by (simp add: sliceLast_def)

lemma capped_length:
  "0 < K \<Longrightarrow> length (if length xs > K then sliceLast K xs else xs) \<le> K"
  by (simp add: sliceLast_def)

lemma savePosted_bounded:
  assumes "0 < K" "length (entries f) \<le> K \<or> ok"
  shows "length (entries (snd (savePosted K ok r f))) \<le> K"
proof (cases ok)
  case False
  with assms show ?thesis by (simp add: savePosted_cases)
next
  case True
  show ?thesis
  proof (cases f)
    case (Records rs)
    with True show ?thesis
      using capped_length [OF assms(1), of "rs @ [r]"] by (simp add: savePosted_cases entries_def)
  next
    case NoFile
    with True show ?thesis
      using capped_length [OF assms(1), of "[r]"] by (simp add: savePosted_cases entries_def)
  next
    case NotJson
    with True show ?thesis
      using capped_length [OF assms(1), of "[r]"] by (simp add: savePosted_cases entries_def)
  next
    case NotArray
    with True show ?thesis by (simp add: savePosted_cases entries_def)
  qed
qed

lemma recordAll_bounded:
  "0 < K \<Longrightarrow> length (entries f) \<le> K \<Longrightarrow> length (entries (recordAll K ops f)) \<le> K"
proof (induction ops arbitrary: f)
  case Nil
  then show ?case by simp
next
  case (Cons a ops)
  obtain ok r where a: "a = (ok, r)" by (cases a)
  have "length (entries (snd (savePosted K ok r f))) \<le> K"
    using Cons.prems by (intro savePosted_bounded) auto
  with Cons a show ?case by simp
qed

lemma capped_drop:
  "0 < K \<Longrightarrow> (if length xs > K then sliceLast K xs else xs) = drop (length xs - K) xs"
  by (simp add: sliceLast_def)

lemma recordAll_fifo_from:
  assumes "0 < K"
  shows "length rs0 \<le> K \<Longrightarrow>
    recordAll K (map (Pair True) rs) (Records rs0) = Records (drop (length (rs0 @ rs) - K) (rs0 @ rs))"
proof (induction rs arbitrary: rs0)
  case Nil
  then show ?case by simp
next
  case (Cons r rs)
  let ?rs1 = "drop (length (rs0 @ [r]) - K) (rs0 @ [r])"
  have step: "snd (savePosted K True r (Records rs0)) = Records ?rs1"
    using capped_drop [OF assms, of "rs0 @ [r]"] by (simp add: savePosted_cases)
  have len: "length ?rs1 \<le> K" using assms by simp
  have "recordAll K (map (Pair True) (r # rs)) (Records rs0)
      = recordAll K (map (Pair True) rs) (Records ?rs1)"
    by (simp only: list.map recordAll.simps step)
  also have "\<dots> = Records (drop (length (?rs1 @ rs) - K) (?rs1 @ rs))"
    using len by (rule Cons.IH)
  also have "drop (length (?rs1 @ rs) - K) (?rs1 @ rs) = drop (length (rs0 @ r # rs) - K) (rs0 @ r # rs)"
  proof (cases "length (rs0 @ [r]) \<le> K")
    case True
    then show ?thesis by simp
  next
    case False
    then have l: "length rs0 = K" using Cons.prems by simp
    have a: "?rs1 @ rs = drop 1 (rs0 @ r # rs)" using l assms by simp
    have b: "length (?rs1 @ rs) - K = length rs" using l assms by simp
    have c: "length (rs0 @ r # rs) - K = Suc (length rs)" using l by simp
    have "drop (length (?rs1 @ rs) - K) (?rs1 @ rs) = drop (length rs) (?rs1 @ rs)"
      by (simp only: b)
    also have "\<dots> = drop (length rs) (drop 1 (rs0 @ r # rs))"
      by (simp only: a)
    also have "\<dots> = drop (Suc (length rs)) (rs0 @ r # rs)"
      by (simp only: drop_drop Suc_eq_plus1)
    also have "\<dots> = drop (length (rs0 @ r # rs) - K) (rs0 @ r # rs)"
      by (simp only: c)
    finally show ?thesis .
  qed
  finally show ?case .
qed

lemma recordAll_fifo:
  assumes "0 < K" and that: "f0 = NoFile \<or> f0 = NotJson \<or> f0 = Records []" and "rs \<noteq> []"
  shows "recordAll K (map (Pair True) rs) f0 = Records (drop (length rs - K) rs)"
proof -
  from \<open>rs \<noteq> []\<close> obtain r rs' where rs: "rs = r # rs'" by (cases rs) auto
  have "snd (savePosted K True r f0) = Records [r]"
    using that assms by (auto simp: savePosted_cases sliceLast_def)
  then have "recordAll K (map (Pair True) rs) f0 = recordAll K (map (Pair True) rs') (Records [r])"
    by (simp add: rs)
  also have "\<dots> = Records (drop (length ([r] @ rs') - K) ([r] @ rs'))"
    using assms by (intro recordAll_fifo_from) auto
  finally show ?thesis by (simp add: rs)
qed

lemma savePosted_distinct:
  assumes "distinct (map idOf (entries f))" "idOf r \<notin> loadPosted idOf f"
  shows "distinct (map idOf (entries (snd (savePosted K ok r f))))"
proof (cases f)
  case (Records rs)
  have "distinct (map idOf (rs @ [r]))"
    using assms Records by (simp add: entries_def loadPosted_def readAndParse_def)
  then have "distinct (map idOf (drop n (rs @ [r])))" for n
    by (simp only: drop_map [symmetric] distinct_drop)
  then have "distinct (map idOf (if length (rs @ [r]) > K then sliceLast K (rs @ [r]) else rs @ [r]))"
    using \<open>distinct (map idOf (rs @ [r]))\<close> by (simp only: sliceLast_def split: if_splits) auto
  with assms Records show ?thesis by (simp add: savePosted_cases entries_def)
qed (simp_all add: savePosted_cases entries_def sliceLast_def)

text \<open>
  Claim C2. With a bound \<open>K > 0\<close> (1000 for the tweet ledger, 100 for the video ledger),
  a record operation leaves at most \<open>K\<close> records in the ledger when the write succeeds or
  the ledger held at most \<open>K\<close> before, so every sequence of record operations on a ledger
  of at most \<open>K\<close> records keeps it at most \<open>K\<close> long. Records inserted one after the
  other into a new ledger are kept in insertion order and only the last \<open>K\<close> of them
  remain: on a full ledger an insertion drops the first record and appends the new one.
\<close>

theorem ledger_capacity_fifo:
  assumes "0 < K"
  shows "(length (entries f) \<le> K \<or> ok \<longrightarrow> length (entries (snd (savePosted K ok r f))) \<le> K) \<and>
    (length (entries f) \<le> K \<longrightarrow> length (entries (recordAll K ops f)) \<le> K) \<and>
    (rs \<noteq> [] \<longrightarrow> recordAll K (map (Pair True) rs) NoFile = Records (drop (length rs - K) rs)) \<and>
    (length rs0 = K \<longrightarrow> snd (savePosted K True r (Records rs0)) = Records (tl rs0 @ [r])) \<and>
    savePostedTweet e = savePosted 1000 (writeFileOk e) \<and>
    savePostedVideo e = savePosted 100 (writeFileOk e)"
proof -
  have a: "length (entries f) \<le> K \<or> ok \<longrightarrow> length (entries (snd (savePosted K ok r f))) \<le> K"
  proof
    assume "length (entries f) \<le> K \<or> ok"
    with assms show "length (entries (snd (savePosted K ok r f))) \<le> K"
      by (rule savePosted_bounded)
  qed
  have b: "length (entries f) \<le> K \<longrightarrow> length (entries (recordAll K ops f)) \<le> K"
  proof
    assume "length (entries f) \<le> K"
    with assms show "length (entries (recordAll K ops f)) \<le> K"
      by (rule recordAll_bounded)
  qed
  have c: "rs \<noteq> [] \<longrightarrow> recordAll K (map (Pair True) rs) NoFile = Records (drop (length rs - K) rs)"
  proof
    assume "rs \<noteq> []"
    then show "recordAll K (map (Pair True) rs) NoFile = Records (drop (length rs - K) rs)"
      by (intro recordAll_fifo [OF assms]) simp_all
  qed
  have d: "length rs0 = K \<longrightarrow> snd (savePosted K True r (Records rs0)) = Records (tl rs0 @ [r])"
  proof
    assume l: "length rs0 = K"
    with assms obtain x xs where x: "rs0 = x # xs" by (cases rs0) auto
    have "drop (length (rs0 @ [r]) - K) (rs0 @ [r]) = tl rs0 @ [r]"
      using l x by simp
    then show "snd (savePosted K True r (Records rs0)) = Records (tl rs0 @ [r])"
      using capped_drop [OF assms, of "rs0 @ [r]"] by (simp add: savePosted_cases)
  qed
  have t: "savePostedTweet e = savePosted 1000 (writeFileOk e)"
    by (rule ext) (simp add: savePostedTweet_def)
  have v: "savePostedVideo e = savePosted 100 (writeFileOk e)"
    by (rule ext) (simp add: savePostedVideo_def)
  from a b c d t v show ?thesis by blast
qed

theorem ledger_capacity_fifo_witness:
  "recordAll 3 [(True, sampleRecord ''1''), (True, sampleRecord ''2''), (True, sampleRecord ''3''),
      (True, sampleRecord ''4'')] NoFile
     = Records [sampleRecord ''2'', sampleRecord ''3'', sampleRecord ''4''] \<and>
   ''1'' \<notin> loadPostedTweets (recordAll 3 [(True, sampleRecord ''1''), (True, sampleRecord ''2''),
      (True, sampleRecord ''3''), (True, sampleRecord ''4'')] NoFile) \<and>
   length (entries (snd (savePosted 3 True (sampleRecord ''5'')
      (Records [sampleRecord ''2'', sampleRecord ''3'', sampleRecord ''4''])))) \<le> 3"
proof -
  let ?rs = "[sampleRecord ''1'', sampleRecord ''2'', sampleRecord ''3'', sampleRecord ''4'']"
  let ?f = "Records [sampleRecord ''2'', sampleRecord ''3'', sampleRecord ''4'']"
  have k: "(0::nat) < 3" by simp
  note inst = ledger_capacity_fifo [OF k, of ?f True "sampleRecord ''5''" "[]" ?rs "[]" sampleEnv]
  have ne: "?rs \<noteq> []" by simp
  have "recordAll 3 (map (Pair True) ?rs) NoFile = Records (drop (length ?rs - 3) ?rs)"
    by (rule inst [THEN conjunct2, THEN conjunct2, THEN conjunct1, THEN mp]) simp
  then have a: "recordAll 3 [(True, sampleRecord ''1''), (True, sampleRecord ''2''),
      (True, sampleRecord ''3''), (True, sampleRecord ''4'')] NoFile = ?f"
    by simp
  have b: "''1'' \<notin> loadPostedTweets ?f"
    by (simp add: loadPostedTweets_def loadPosted_def readAndParse_def sampleRecord_def)
  have c: "length (entries (snd (savePosted 3 True (sampleRecord ''5'') ?f))) \<le> 3"
    by (rule inst [THEN conjunct1, THEN mp]) simp
  have b': "''1'' \<notin> loadPostedTweets (recordAll 3 [(True, sampleRecord ''1''),
      (True, sampleRecord ''2''), (True, sampleRecord ''3''), (True, sampleRecord ''4'')] NoFile)"
    unfolding a by (rule b)
  from a b' c show ?thesis by (intro conjI)
qed

section \<open>Properties of the thread reconstruction\<close>

lemma cleanAndOptimizeContent_Inr: "\<exists>out. cleanAndOptimizeContent e content isThread = Inr out"
  by (simp add: cleanAndOptimizeContent_def split: sum.splits)

lemma summarizeThread_Inr: "\<exists>out. summarizeThread e tweets = Inr out"
  by (simp add: summarizeThread_def split: sum.splits)

lemma processThread_long:
  assumes "2 \<le> length (getThreadFromTimeline (conversation_id tweet) timelineData)"
  shows "\<exists>content. processThread e tweet timelineData =
     Inr (content,
       (case findFirstTweet (sortThreadChronologically
               (getThreadFromTimeline (conversation_id tweet) timelineData)) of
          None \<Rightarrow> conversation_id tweet
        | Some ft \<Rightarrow> if tweet_id ft = [] then conversation_id tweet else tweet_id ft))"
proof -
  let ?sorted = "sortThreadChronologically (getThreadFromTimeline (conversation_id tweet) timelineData)"
  obtain summary where s: "summarizeThread e ?sorted = Inr summary"
    using summarizeThread_Inr by blast
  obtain cleaned where c: "cleanAndOptimizeContent e summary True = Inr cleaned"
    using cleanAndOptimizeContent_Inr by blast
  from assms have "\<not> length (getThreadFromTimeline (conversation_id tweet) timelineData) \<le> 1"
    by simp
  then show ?thesis
    by (simp add: processThread_def Let_def s c)
qed

lemma processTwitterContent_thread:
  assumes "isPartOfThread tweet"
    and "2 \<le> length (getThreadFromTimeline (conversation_id tweet) timelineData)"
  shows "\<exists>content. processTwitterContent e tweet timelineData =
     Inr (content,
       (case findFirstTweet (sortThreadChronologically
               (getThreadFromTimeline (conversation_id tweet) timelineData)) of
          None \<Rightarrow> conversation_id tweet
        | Some ft \<Rightarrow> if tweet_id ft = [] then conversation_id tweet else tweet_id ft))"
proof -
  obtain content where "processThread e tweet timelineData =
     Inr (content,
       (case findFirstTweet (sortThreadChronologically
               (getThreadFromTimeline (conversation_id tweet) timelineData)) of
          None \<Rightarrow> conversation_id tweet
        | Some ft \<Rightarrow> if tweet_id ft = [] then conversation_id tweet else tweet_id ft))"
    using processThread_long [OF assms(2)] by blast
  then show ?thesis using assms(1) by (simp add: processTwitterContent_def)
qed

lemma find_Some_set: "find P xs = Some x \<Longrightarrow> x \<in> set xs \<and> P x"
  by (induction xs) (auto split: if_splits)

lemma find_None_all: "find P xs = None \<longleftrightarrow> (\<forall>x \<in> set xs. \<not> P x)"
  by (induction xs) auto

lemma findFirstTweet_sorted_root:
  assumes "root \<in> set thread" "\<not> hasRepliedTo root"
    and "\<forall>t \<in> set thread. \<not> hasRepliedTo t \<longrightarrow> tweet_id t = tweet_id root"
  shows "\<exists>ft. findFirstTweet (sortThreadChronologically thread) = Some ft \<and> tweet_id ft = tweet_id root"
proof (cases "findFirstTweet (sortThreadChronologically thread)")
  case None
  then have "\<forall>x \<in> set (sort_key created_at thread). hasRepliedTo x"
    by (simp add: findFirstTweet_def sortThreadChronologically_def find_None_all)
  with assms(1,2) show ?thesis by simp
next
  case (Some ft)
  then have "ft \<in> set (sort_key created_at thread) \<and> \<not> hasRepliedTo ft"
    unfolding findFirstTweet_def sortThreadChronologically_def by (rule find_Some_set)
  then have "tweet_id ft = tweet_id root" using assms(3) by simp
  with Some show ?thesis by simp
qed

lemma findFirstTweet_sorted_none:
  assumes "\<forall>t \<in> set thread. hasRepliedTo t"
  shows "findFirstTweet (sortThreadChronologically thread) = None"
  using assms by (simp add: findFirstTweet_def sortThreadChronologically_def find_None_all)

lemma hasRepliedTo_iff:
  "hasRepliedTo t \<longleftrightarrow>
     (\<exists>refs. referenced_tweets t = Some refs \<and> (\<exists>ref \<in> set refs. fst ref = ''replied_to''))"
  by (auto simp: hasRepliedTo_def list_ex_iff split: option.splits)

lemma no_reply_iff:
  "(\<forall>refs. referenced_tweets t = Some refs \<longrightarrow> (\<forall>ref \<in> set refs. fst ref \<noteq> ''replied_to''))
     \<longleftrightarrow> \<not> hasRepliedTo t"
  by (auto simp: hasRepliedTo_iff)

lemma getThreadFromTimeline_set:
  "t \<in> set (getThreadFromTimeline c timelineData) \<longleftrightarrow>
     t \<in> set timelineData \<and> conversation_id t = c"
  by (auto simp: getThreadFromTimeline_def)

text \<open>
  Claim C7. Let a tweet have a \<open>replied_to\<close> reference or a conversation id that is not its
  id, and let the timeline hold at least two tweets with its conversation id. Then
  \<^verbatim>\<open>processTwitterContent\<close> returns, and the first tweet id it answers is the id of the
  tweet of the timeline that has this conversation id and no \<open>replied_to\<close> reference (ids
  are not empty), and it is the conversation id when every tweet of the timeline with
  this conversation id has such a reference. Tweets of other conversations in the
  timeline play no part.
\<close>

theorem root_item_id:
  assumes "(\<exists>refs. referenced_tweets tweet = Some refs \<and>
              (\<exists>ref \<in> set refs. fst ref = ''replied_to'')) \<or>
           conversation_id tweet \<noteq> tweet_id tweet"
    and "2 \<le> length (filter (\<lambda>t. conversation_id t = conversation_id tweet) timelineData)"
  shows "\<exists>content firstTweetId.
     processTwitterContent e tweet timelineData = Inr (content, firstTweetId) \<and>
     (\<forall>root \<in> set timelineData.
        conversation_id root = conversation_id tweet \<and>
        (\<forall>refs. referenced_tweets root = Some refs \<longrightarrow>
           (\<forall>ref \<in> set refs. fst ref \<noteq> ''replied_to'')) \<and>
        tweet_id root \<noteq> [] \<and>
        (\<forall>t \<in> set timelineData.
           conversation_id t = conversation_id tweet \<and>
           (\<forall>refs. referenced_tweets t = Some refs \<longrightarrow>
              (\<forall>ref \<in> set refs. fst ref \<noteq> ''replied_to''))
           \<longrightarrow> tweet_id t = tweet_id root)
        \<longrightarrow> firstTweetId = tweet_id root) \<and>
     ((\<forall>t \<in> set timelineData.
         conversation_id t = conversation_id tweet \<longrightarrow>
         (\<exists>refs. referenced_tweets t = Some refs \<and>
            (\<exists>ref \<in> set refs. fst ref = ''replied_to'')))
        \<longrightarrow> firstTweetId = conversation_id tweet)"
proof -
  let ?thread = "getThreadFromTimeline (conversation_id tweet) timelineData"
  let ?first = "findFirstTweet (sortThreadChronologically ?thread)"
  let ?id = "case ?first of None \<Rightarrow> conversation_id tweet
        | Some ft \<Rightarrow> if tweet_id ft = [] then conversation_id tweet else tweet_id ft"
  have member: "isPartOfThread tweet"
    using assms(1) by (auto simp: isPartOfThread_def hasRepliedTo_iff)
  have long: "2 \<le> length ?thread"
    using assms(2) by (simp add: getThreadFromTimeline_def)
  obtain content where run: "processTwitterContent e tweet timelineData = Inr (content, ?id)"
    using processTwitterContent_thread [OF member long] by blast
  have a: "?id = tweet_id root"
    if r1: "root \<in> set ?thread" and r2: "\<not> hasRepliedTo root" and r3: "tweet_id root \<noteq> []"
      and r4: "\<forall>t \<in> set ?thread. \<not> hasRepliedTo t \<longrightarrow> tweet_id t = tweet_id root" for root
  proof -
    obtain ft where "?first = Some ft" "tweet_id ft = tweet_id root"
      using findFirstTweet_sorted_root [OF r1 r2 r4] by blast
    with r3 show ?thesis by simp
  qed
  have b: "?id = conversation_id tweet" if "\<forall>t \<in> set ?thread. hasRepliedTo t"
    using findFirstTweet_sorted_none [OF that] by simp
  have "?id = tweet_id root"
    if "root \<in> set timelineData" and "conversation_id root = conversation_id tweet"
      and "\<not> hasRepliedTo root" and "tweet_id root \<noteq> []"
      and u: "\<forall>t \<in> set timelineData.
           conversation_id t = conversation_id tweet \<and> \<not> hasRepliedTo t
           \<longrightarrow> tweet_id t = tweet_id root" for root
  proof (rule a)
    show "root \<in> set ?thread" using that(1,2) by (simp add: getThreadFromTimeline_set)
    show "\<not> hasRepliedTo root" by (rule that(3))
    show "tweet_id root \<noteq> []" by (rule that(4))
    show "\<forall>t \<in> set ?thread. \<not> hasRepliedTo t \<longrightarrow> tweet_id t = tweet_id root"
      using u by (simp add: getThreadFromTimeline_set)
  qed
  then have a': "\<forall>root \<in> set timelineData.
        conversation_id root = conversation_id tweet \<and> \<not> hasRepliedTo root \<and>
        tweet_id root \<noteq> [] \<and>
        (\<forall>t \<in> set timelineData.
           conversation_id t = conversation_id tweet \<and> \<not> hasRepliedTo t
           \<longrightarrow> tweet_id t = tweet_id root)
        \<longrightarrow> ?id = tweet_id root"
    by blast
  have "?id = conversation_id tweet"
    if "\<forall>t \<in> set timelineData. conversation_id t = conversation_id tweet \<longrightarrow> hasRepliedTo t"
  proof (rule b)
    show "\<forall>t \<in> set ?thread. hasRepliedTo t" using that by (simp add: getThreadFromTimeline_set)
  qed
  then have b': "(\<forall>t \<in> set timelineData.
         conversation_id t = conversation_id tweet \<longrightarrow> hasRepliedTo t)
        \<longrightarrow> ?id = conversation_id tweet"
    by blast
  show ?thesis
    unfolding no_reply_iff hasRepliedTo_iff [symmetric]
    using run a' b' by (intro exI conjI)
qed

theorem root_item_id_witness:
  "(\<exists>content. processTwitterContent sampleEnv (sampleTweet ''103'' ''100'' 30 True)
      [sampleTweet ''103'' ''100'' 30 True, sampleTweet ''200'' ''200'' 5 False,
       sampleTweet ''101'' ''100'' 10 False, sampleTweet ''102'' ''100'' 20 True]
      = Inr (content, ''101'')) \<and>
   (\<exists>content. processTwitterContent sampleEnv (sampleTweet ''103'' ''100'' 30 True)
      [sampleTweet ''103'' ''100'' 30 True, sampleTweet ''200'' ''200'' 5 False,
       sampleTweet ''102'' ''100'' 20 True]
      = Inr (content, ''100''))"
proof -
  let ?t3 = "sampleTweet ''103'' ''100'' 30 True"
  let ?t1 = "sampleTweet ''101'' ''100'' 10 False"
  let ?t2 = "sampleTweet ''102'' ''100'' 20 True"
  let ?other = "sampleTweet ''200'' ''200'' 5 False"
  have p: "(\<exists>refs. referenced_tweets ?t3 = Some refs \<and>
              (\<exists>ref \<in> set refs. fst ref = ''replied_to'')) \<or>
           conversation_id ?t3 \<noteq> tweet_id ?t3"
    by (simp add: sampleTweet_def)
  have l1: "2 \<le> length (filter (\<lambda>t. conversation_id t = conversation_id ?t3)
      [?t3, ?other, ?t1, ?t2])"
    by (simp add: sampleTweet_def)
  have l2: "2 \<le> length (filter (\<lambda>t. conversation_id t = conversation_id ?t3)
      [?t3, ?other, ?t2])"
    by (simp add: sampleTweet_def)
  have "\<exists>content. processTwitterContent sampleEnv ?t3 [?t3, ?other, ?t1, ?t2]
      = Inr (content, ''101'')"
    using root_item_id [OF p l1, of sampleEnv] by (auto simp: sampleTweet_def)
  moreover have "\<exists>content. processTwitterContent sampleEnv ?t3 [?t3, ?other, ?t2]
      = Inr (content, ''100'')"
    using root_item_id [OF p l2, of sampleEnv] by (auto simp: sampleTweet_def)
  ultimately show ?thesis by (intro conjI)
qed

section \<open>Runs of the image pipeline\<close>

lemma processTwitterContent_Inr: "\<exists>content first. processTwitterContent e tweet timelineData = Inr (content, first)"
  by (cases "processTwitterContent e tweet timelineData")
     (auto simp: processTwitterContent_def Let_def split: sum.splits if_splits)

lemma createZoraCoin_eq:
  "createZoraCoin e post imageUrl content link w =
     (mintResult e (tweet_id post) content,
      w\<lparr>calls := calls w @ [Mint (tweet_id post) (mintResult e (tweet_id post) content)]\<rparr>)"
  by (simp add: createZoraCoin_def mintResult_def Let_def)

lemma tweetMain_fetch_fails:
  assumes "getLatestImagePost e (loadPostedTweets (postedTweetsFile w)) = Inl err"
  shows "tweetMain e w = (Exited 1, w\<lparr>dailyPostingLog := dailyPostingLog w @ [FAILED err]\<rparr>)"
  using assms by (simp add: tweetMain_def tweetMainBody_def)

lemma tweetMain_mint_fails:
  assumes "getLatestImagePost e (loadPostedTweets (postedTweetsFile w)) = Inr (post, imageUrl, tline)"
    and "processTwitterContent e post tline = Inr (content, first)"
    and "mintResult e (tweet_id post) content = Inl err"
  shows "tweetMain e w = (Exited 1,
     w\<lparr>calls := calls w @ [Mint (tweet_id post) (Inl err)],
       dailyPostingLog := dailyPostingLog w @ [FAILED err]\<rparr>)"
  using assms by (simp add: tweetMain_def tweetMainBody_def createZoraCoin_eq)

lemma tweetMain_mint_ok:
  assumes "getLatestImagePost e (loadPostedTweets (postedTweetsFile w)) = Inr (post, imageUrl, tline)"
    and "processTwitterContent e post tline = Inr (content, first)"
    and "mintResult e (tweet_id post) content = Inr tx"
  shows "tweetMain e w = (Completed,
     w\<lparr>calls := calls w @ [Mint (tweet_id post) (Inr tx)],
       postedTweetsFile := snd (savePostedTweet e
          \<lparr>tweetId = tweet_id post, tweetCoinName = ''tokenmetrics#'' @ sliceLast 6 (tweet_id post),
           tweetZoraTransaction = tx, tweetPostedAt = now e\<rparr> (postedTweetsFile w)),
       dailyPostingLog := dailyPostingLog w @ [SUCCESS (tweet_id post) tx]\<rparr>)"
  using assms
  by (simp add: tweetMain_def tweetMainBody_def createZoraCoin_eq Let_def
      savePostedTweet_def savePosted_returns)

lemma findImagePost_fresh:
  "findImagePost alreadyPosted mediaData tweets = Some (post, u) \<Longrightarrow>
     post \<in> set tweets \<and> tweet_id post \<notin> alreadyPosted"
proof (induction tweets)
  case Nil
  then show ?case by simp
next
  case (Cons t ts)
  show ?case
  proof (cases "findImagePost alreadyPosted mediaData ts = Some (post, u)")
    case True
    with Cons.IH show ?thesis by simp
  next
    case False
    with Cons.prems have "tweet_id t \<notin> alreadyPosted \<and> post = t"
      by (auto simp: Let_def split: if_splits option.splits)
    then show ?thesis by simp
  qed
qed

lemma findImagePost_all_posted:
  "\<forall>t \<in> set tweets. tweet_id t \<in> alreadyPosted \<Longrightarrow> findImagePost alreadyPosted mediaData tweets = None"
  by (induction tweets) auto

lemma getLatestImagePost_fresh:
  "getLatestImagePost e alreadyPosted = Inr (post, imageUrl, tline) \<Longrightarrow>
     post \<in> set tline \<and> tweet_id post \<notin> alreadyPosted"
  by (auto simp: getLatestImagePost_def split: sum.splits if_splits option.splits
      dest: findImagePost_fresh)

section \<open>Properties of the media acquisition\<close>

lemma tryDownloadWithFormat_world:
  "snd (tryDownloadWithFormat e v f w) =
     w\<lparr>downloads := snd (ytdlp e v f (downloads w)),
       calls := calls w @ [Download v f (fst (tryDownloadWithFormat e v f w))]\<rparr>"
  by (simp add: tryDownloadWithFormat_def Let_def split: prod.splits)

lemma endsWith_last: "endsWith f p \<Longrightarrow> p \<noteq> [] \<Longrightarrow> last f = last p"
  unfolding endsWith_def by (metis last_drop drop_eq_Nil not_le)

lemma endsWith_append: "endsWith (v @ p) p"
  by (simp add: endsWith_def)

lemma video_thumb_differ:
  assumes "endsWith vp ''.mp4'' \<or> endsWith vp ''.webm'' \<or> endsWith vp ''.mkv''"
    and "endsWith tp ''.jpg''"
  shows "vp \<noteq> tp"
proof
  assume "vp = tp"
  with assms(2) have "last vp = CHR ''g''" using endsWith_last by fastforce
  moreover from assms(1) have "last vp = CHR ''4'' \<or> last vp = CHR ''m'' \<or> last vp = CHR ''v''"
    using endsWith_last by fastforce
  ultimately show False by auto
qed

lemma tryDownloadWithFormat_files:
  assumes "tryDownloadWithFormat e v f w = (Inr (vp, tp), w')"
  shows "vp \<in> set (downloads w') \<and> tp \<in> set (downloads w') \<and> vp \<noteq> tp"
proof -
  obtain ended files where y: "ytdlp e v f (downloads w) = (ended, files)"
    by (cases "ytdlp e v f (downloads w)")
  from assms have w': "downloads w' = files"
    using tryDownloadWithFormat_world [of e v f w] y by simp
  let ?vf = "find (\<lambda>f. startsWith f v \<and> (endsWith f ''.mp4'' \<or> endsWith f ''.webm'' \<or> endsWith f ''.mkv'')) files"
  let ?tf = "find (\<lambda>f. startsWith f v \<and> endsWith f ''.jpg'') files"
  from assms y consider
      (direct) "vp = v @ ''.mp4''" "tp = v @ ''.jpg''" "vp \<in> set files" "tp \<in> set files"
    | (found) "?vf = Some vp" "?tf = Some tp"
    by (auto simp: tryDownloadWithFormat_def Let_def split: proc_exit.splits if_splits option.splits)
  then show ?thesis
  proof cases
    case direct
    have "vp \<noteq> tp"
      using direct(1,2) endsWith_append [of v "''.mp4''"] endsWith_append [of v "''.jpg''"]
      by (intro video_thumb_differ) auto
    with direct w' show ?thesis by simp
  next
    case found
    from found(1) have a: "vp \<in> set files \<and>
        (startsWith vp v \<and> (endsWith vp ''.mp4'' \<or> endsWith vp ''.webm'' \<or> endsWith vp ''.mkv''))"
      by (rule find_Some_set)
    from found(2) have b: "tp \<in> set files \<and> (startsWith tp v \<and> endsWith tp ''.jpg'')"
      by (rule find_Some_set)
    have "vp \<noteq> tp" using a b by (intro video_thumb_differ) auto
    with a b w' show ?thesis by simp
  qed
qed

text \<open>The attempts of the strategy loop, with their outcomes.\<close>

lemma tryStrategies_attempts:
  "strategies \<noteq> [] \<Longrightarrow>
   \<exists>attempts. attempts \<noteq> [] \<and>
      calls (snd (tryStrategies e v strategies w)) =
        calls w @ map (\<lambda>(f, r). Download v f r) attempts \<and>
      map fst attempts = take (length attempts) strategies \<and>
      length attempts \<le> length strategies \<and>
      (\<forall>a \<in> set (butlast attempts). isl (snd a)) \<and>
      snd (last attempts) = fst (tryStrategies e v strategies w) \<and>
      (isl (fst (tryStrategies e v strategies w)) \<longrightarrow> length attempts = length strategies)"
proof (induction strategies arbitrary: w)
  case Nil
  then show ?case by simp
next
  case (Cons f rest)
  let ?r = "fst (tryDownloadWithFormat e v f w)"
  let ?w = "snd (tryDownloadWithFormat e v f w)"
  have cw: "calls ?w = calls w @ [Download v f ?r]"
    by (simp add: tryDownloadWithFormat_world)
  show ?case
  proof (cases "isl ?r \<and> rest \<noteq> []")
    case False
    then have "tryStrategies e v (f # rest) w = (?r, ?w)"
      by (cases "tryDownloadWithFormat e v f w"; cases ?r) auto
    with cw False have
      "[(f, ?r)] \<noteq> [] \<and>
       calls (snd (tryStrategies e v (f # rest) w)) = calls w @ map (\<lambda>(f, r). Download v f r) [(f, ?r)] \<and>
       map fst [(f, ?r)] = take (length [(f, ?r)]) (f # rest) \<and>
       length [(f, ?r)] \<le> length (f # rest) \<and>
       (\<forall>a \<in> set (butlast [(f, ?r)]). isl (snd a)) \<and>
       snd (last [(f, ?r)]) = fst (tryStrategies e v (f # rest) w) \<and>
       (isl (fst (tryStrategies e v (f # rest) w)) \<longrightarrow> length [(f, ?r)] = length (f # rest))"
      by auto
    then show ?thesis by blast
  next
    case True
    then have step: "tryStrategies e v (f # rest) w = tryStrategies e v rest ?w"
      by (cases "tryDownloadWithFormat e v f w"; cases ?r) auto
    from True have "rest \<noteq> []" by simp
    from Cons.IH [OF this, of ?w] obtain attempts where a:
      "attempts \<noteq> []"
      "calls (snd (tryStrategies e v rest ?w)) = calls ?w @ map (\<lambda>(f, r). Download v f r) attempts"
      "map fst attempts = take (length attempts) rest"
      "length attempts \<le> length rest"
      "\<forall>a \<in> set (butlast attempts). isl (snd a)"
      "snd (last attempts) = fst (tryStrategies e v rest ?w)"
      "isl (fst (tryStrategies e v rest ?w)) \<longrightarrow> length attempts = length rest"
      by blast
    let ?as = "(f, ?r) # attempts"
    have "?as \<noteq> [] \<and>
       calls (snd (tryStrategies e v (f # rest) w)) = calls w @ map (\<lambda>(f, r). Download v f r) ?as \<and>
       map fst ?as = take (length ?as) (f # rest) \<and>
       length ?as \<le> length (f # rest) \<and>
       (\<forall>a \<in> set (butlast ?as). isl (snd a)) \<and>
       snd (last ?as) = fst (tryStrategies e v (f # rest) w) \<and>
       (isl (fst (tryStrategies e v (f # rest) w)) \<longrightarrow> length ?as = length (f # rest))"
      unfolding step using a True cw by (simp del: tryStrategies.simps)
    then show ?thesis by blast
  qed
qed




section \<open>Runs of the video pipeline\<close>

lemma tryStrategies_frame:
  "postedVideosFile (snd (tryStrategies e v strategies w)) = postedVideosFile w \<and>
   postedTweetsFile (snd (tryStrategies e v strategies w)) = postedTweetsFile w \<and>
   youtubePostingLog (snd (tryStrategies e v strategies w)) = youtubePostingLog w \<and>
   dailyPostingLog (snd (tryStrategies e v strategies w)) = dailyPostingLog w"
proof (induction strategies arbitrary: w)
  case Nil
  then show ?case by simp
next
  case (Cons f rest)
  let ?r = "fst (tryDownloadWithFormat e v f w)"
  let ?w = "snd (tryDownloadWithFormat e v f w)"
  have fr: "postedVideosFile ?w = postedVideosFile w \<and> postedTweetsFile ?w = postedTweetsFile w \<and>
      youtubePostingLog ?w = youtubePostingLog w \<and> dailyPostingLog ?w = dailyPostingLog w"
    by (simp add: tryDownloadWithFormat_world)
  show ?case
  proof (cases "isl ?r \<and> rest \<noteq> []")
    case False
    then have "tryStrategies e v (f # rest) w = (?r, ?w)"
      by (cases "tryDownloadWithFormat e v f w"; cases ?r) auto
    with fr show ?thesis by simp
  next
    case True
    then have step: "tryStrategies e v (f # rest) w = tryStrategies e v rest ?w"
      by (cases "tryDownloadWithFormat e v f w"; cases ?r) auto
    show ?thesis unfolding step using Cons.IH [of ?w] fr by simp
  qed
qed

lemma tryStrategies_files:
  "tryStrategies e v strategies w = (Inr (vp, tp), w') \<Longrightarrow>
     vp \<in> set (downloads w') \<and> tp \<in> set (downloads w') \<and> vp \<noteq> tp"
proof (induction strategies arbitrary: w)
  case Nil
  then show ?case by simp
next
  case (Cons f rest)
  let ?r = "fst (tryDownloadWithFormat e v f w)"
  let ?w = "snd (tryDownloadWithFormat e v f w)"
  show ?case
  proof (cases "isl ?r \<and> rest \<noteq> []")
    case False
    then have "tryStrategies e v (f # rest) w = (?r, ?w)"
      by (cases "tryDownloadWithFormat e v f w"; cases ?r) auto
    with Cons.prems have "tryDownloadWithFormat e v f w = (Inr (vp, tp), w')"
      by (simp add: prod_eq_iff)
    then show ?thesis by (rule tryDownloadWithFormat_files)
  next
    case True
    then have step: "tryStrategies e v (f # rest) w = tryStrategies e v rest ?w"
      by (cases "tryDownloadWithFormat e v f w"; cases ?r) auto
    from Cons.prems have "tryStrategies e v rest ?w = (Inr (vp, tp), w')"
      unfolding step .
    then show ?thesis by (rule Cons.IH)
  qed
qed

lemma downloadShortVideo_calls:
  "\<forall>c \<in> set (calls (snd (downloadShortVideo e v w))).
     c \<in> set (calls w) \<or> (isDownload c \<and> callId c = v)"
proof -
  obtain attempts where
    "calls (snd (downloadShortVideo e v w)) = calls w @ map (\<lambda>(f, r). Download v f r) attempts"
    using tryStrategies_attempts [of formatStrategies e v w]
    unfolding downloadShortVideo_def by (auto simp: formatStrategies_def)
  then show ?thesis by auto
qed

lemma cleanupFiles_removes:
  assumes "vp \<in> set files" "tp \<in> set files" "vp \<noteq> tp"
    and "unlinkOk e vp" "unlinkOk e tp"
  shows "cleanupFiles e vp tp files = removeAll tp (removeAll vp files)"
  using assms by (simp add: cleanupFiles_def unlink_def)

lemma cleanupFiles_first_fails:
  assumes "\<not> unlinkOk e vp"
  shows "cleanupFiles e vp tp files = files"
  using assms by (simp add: cleanupFiles_def unlink_def)

lemma cleanupFiles_second_fails:
  assumes "vp \<in> set files" "unlinkOk e vp" "\<not> unlinkOk e tp"
  shows "cleanupFiles e vp tp files = removeAll vp files"
  using assms by (simp add: cleanupFiles_def unlink_def)

lemma createZoraCoinWithVideo_frame:
  "postedVideosFile (snd (createZoraCoinWithVideo e tv vp tp w)) = postedVideosFile w \<and>
   postedTweetsFile (snd (createZoraCoinWithVideo e tv vp tp w)) = postedTweetsFile w \<and>
   youtubePostingLog (snd (createZoraCoinWithVideo e tv vp tp w)) = youtubePostingLog w \<and>
   dailyPostingLog (snd (createZoraCoinWithVideo e tv vp tp w)) = dailyPostingLog w \<and>
   calls (snd (createZoraCoinWithVideo e tv vp tp w)) =
     calls w @ [Mint (video_id tv) (fst (createZoraCoinWithVideo e tv vp tp w))]"
  by (simp add: createZoraCoinWithVideo_def Let_def)

lemma createZoraCoinWithVideo_downloads:
  "walletOk e \<Longrightarrow> downloads (snd (createZoraCoinWithVideo e tv vp tp w)) =
     cleanupFiles e vp tp (downloads w)"
  by (simp add: createZoraCoinWithVideo_def Let_def)

lemma videoMain_target_fails:
  assumes "targetVideo e arg w = Inl err"
  shows "videoMain e arg w = (Exited 1, w\<lparr>youtubePostingLog := youtubePostingLog w @ [FAILED err]\<rparr>)"
  using assms
  by (cases arg; cases "specificMode arg")
     (simp_all add: videoMain_def videoMainBody_def targetVideo_def specificMode_def Let_def)

lemma videoMain_download_fails:
  assumes "targetVideo e arg w = Inr tv"
    and "downloadShortVideo e (video_id tv) w = (Inl err, w1)"
  shows "videoMain e arg w = (Exited 1, w1\<lparr>youtubePostingLog := youtubePostingLog w1 @ [FAILED err]\<rparr>)"
  using assms
  by (cases arg; cases "specificMode arg")
     (simp_all add: videoMain_def videoMainBody_def targetVideo_def specificMode_def Let_def)

lemma videoMain_mint_fails:
  assumes "targetVideo e arg w = Inr tv"
    and "downloadShortVideo e (video_id tv) w = (Inr (vp, tp), w1)"
    and "createZoraCoinWithVideo e tv vp tp w1 = (Inl err, w2)"
  shows "videoMain e arg w = (Exited 1, w2\<lparr>youtubePostingLog := youtubePostingLog w2 @ [FAILED err]\<rparr>)"
  using assms
  by (cases arg; cases "specificMode arg")
     (simp_all add: videoMain_def videoMainBody_def targetVideo_def specificMode_def Let_def)

lemma videoMain_mint_ok:
  assumes "targetVideo e arg w = Inr tv"
    and "downloadShortVideo e (video_id tv) w = (Inr (vp, tp), w1)"
    and "createZoraCoinWithVideo e tv vp tp w1 = (Inr tx, w2)"
  shows "videoMain e arg w = (Completed,
     w2\<lparr>postedVideosFile :=
          (if specificMode arg then postedVideosFile w2
           else snd (savePostedVideo e
             \<lparr>videoId = video_id tv, videoCoinName = title tv,
              videoZoraTransaction = tx, videoPostedAt = now e\<rparr> (postedVideosFile w2))),
        youtubePostingLog := youtubePostingLog w2 @ [SUCCESS (video_id tv) tx]\<rparr>)"
  using assms
  by (cases arg; cases "specificMode arg")
     (simp_all add: videoMain_def videoMainBody_def targetVideo_def specificMode_def Let_def
      savePostedVideo_def savePosted_returns)

lemma handoff_setup_throws:
  "\<not> walletOk e \<Longrightarrow> fst (createZoraCoinWithVideo e tv vp tp w) = Inl WalletError \<and>
     downloads (snd (createZoraCoinWithVideo e tv vp tp w)) = downloads w"
  by (simp add: createZoraCoinWithVideo_def)

lemma getLatestShorts_fresh:
  "getLatestShorts e alreadyPosted = Inr tv \<Longrightarrow> video_id tv \<notin> alreadyPosted"
  by (auto simp: getLatestShorts_def toVideo_def split: http.splits list.splits if_splits)

lemma tweetRun_cases:
  obtains (fetch) err where
      "tweetRun e w = (Exited 1,
         w\<lparr>calls := [], dailyPostingLog := dailyPostingLog w @ [FAILED err]\<rparr>)"
  | (mintFails) post :: TwitterPost and err where
      "tweet_id post \<notin> loadPostedTweets (postedTweetsFile w)"
      "tweetRun e w = (Exited 1,
         w\<lparr>calls := [Mint (tweet_id post) (Inl err)],
           dailyPostingLog := dailyPostingLog w @ [FAILED err]\<rparr>)"
  | (mintOk) post :: TwitterPost and tx where
      "tweet_id post \<notin> loadPostedTweets (postedTweetsFile w)"
      "tweetRun e w = (Completed,
         w\<lparr>calls := [Mint (tweet_id post) (Inr tx)],
           postedTweetsFile := snd (savePostedTweet e
             \<lparr>tweetId = tweet_id post,
              tweetCoinName = ''tokenmetrics#'' @ sliceLast 6 (tweet_id post),
              tweetZoraTransaction = tx, tweetPostedAt = now e\<rparr> (postedTweetsFile w)),
           dailyPostingLog := dailyPostingLog w @ [SUCCESS (tweet_id post) tx]\<rparr>)"
proof -
  let ?w = "w\<lparr>calls := []\<rparr>"
  let ?posted = "loadPostedTweets (postedTweetsFile ?w)"
  show thesis
  proof (cases "getLatestImagePost e ?posted")
    case (Inl err)
    then have "tweetMain e ?w = (Exited 1, ?w\<lparr>dailyPostingLog := dailyPostingLog ?w @ [FAILED err]\<rparr>)"
      by (rule tweetMain_fetch_fails)
    then show thesis by (intro fetch [of err]) (simp add: tweetRun_def)
  next
    case (Inr found)
    obtain post imageUrl tline where f: "found = (post, imageUrl, tline)" by (cases found)
    with Inr have g: "getLatestImagePost e ?posted = Inr (post, imageUrl, tline)" by simp
    then have fresh: "tweet_id post \<notin> loadPostedTweets (postedTweetsFile w)"
      using getLatestImagePost_fresh [of e ?posted post imageUrl tline] by simp
    obtain content first where p: "processTwitterContent e post tline = Inr (content, first)"
      using processTwitterContent_Inr by blast
    show thesis
    proof (cases "mintResult e (tweet_id post) content")
      case (Inl err)
      have "tweetMain e ?w = (Exited 1,
         ?w\<lparr>calls := calls ?w @ [Mint (tweet_id post) (Inl err)],
           dailyPostingLog := dailyPostingLog ?w @ [FAILED err]\<rparr>)"
        using g p Inl by (rule tweetMain_mint_fails)
      then show thesis using fresh by (intro mintFails [of post err]) (simp_all add: tweetRun_def)
    next
      case (Inr tx)
      have "tweetMain e ?w = (Completed,
         ?w\<lparr>calls := calls ?w @ [Mint (tweet_id post) (Inr tx)],
           postedTweetsFile := snd (savePostedTweet e
             \<lparr>tweetId = tweet_id post,
              tweetCoinName = ''tokenmetrics#'' @ sliceLast 6 (tweet_id post),
              tweetZoraTransaction = tx, tweetPostedAt = now e\<rparr> (postedTweetsFile ?w)),
           dailyPostingLog := dailyPostingLog ?w @ [SUCCESS (tweet_id post) tx]\<rparr>)"
        using g p Inr by (rule tweetMain_mint_ok)
      then show thesis using fresh by (intro mintOk [of post tx]) (simp_all add: tweetRun_def)
    qed
  qed
qed

lemma targetVideo_calls: "targetVideo e arg (w\<lparr>calls := cs\<rparr>) = targetVideo e arg w"
  by (cases arg) (simp_all add: targetVideo_def)

lemma targetVideo_fresh:
  "\<not> specificMode arg \<Longrightarrow> targetVideo e arg w = Inr tv \<Longrightarrow>
     video_id tv \<notin> loadPostedVideos (postedVideosFile w)"
  by (cases arg) (auto simp: targetVideo_def specificMode_def getLatestShorts_fresh split: if_splits)

text \<open>
  The four ways a run of the video script goes: no target, no download, the hand-off
  fails, the hand-off succeeds. \<open>w1\<close> is the world after the download, \<open>w2\<close> the world
  after the hand-off.
\<close>

lemma videoRun_cases:
  obtains (target) err where
      "targetVideo e arg w = Inl err"
      "videoRun e arg w = (Exited 1,
         w\<lparr>calls := [], youtubePostingLog := youtubePostingLog w @ [FAILED err]\<rparr>)"
  | (download) tv err w1 where
      "targetVideo e arg w = Inr tv"
      "downloadShortVideo e (video_id tv) (w\<lparr>calls := []\<rparr>) = (Inl err, w1)"
      "videoRun e arg w = (Exited 1,
         w1\<lparr>youtubePostingLog := youtubePostingLog w1 @ [FAILED err]\<rparr>)"
  | (mintFails) tv vp tp w1 err w2 where
      "targetVideo e arg w = Inr tv"
      "downloadShortVideo e (video_id tv) (w\<lparr>calls := []\<rparr>) = (Inr (vp, tp), w1)"
      "createZoraCoinWithVideo e tv vp tp w1 = (Inl err, w2)"
      "videoRun e arg w = (Exited 1,
         w2\<lparr>youtubePostingLog := youtubePostingLog w2 @ [FAILED err]\<rparr>)"
  | (mintOk) tv vp tp w1 tx w2 where
      "targetVideo e arg w = Inr tv"
      "downloadShortVideo e (video_id tv) (w\<lparr>calls := []\<rparr>) = (Inr (vp, tp), w1)"
      "createZoraCoinWithVideo e tv vp tp w1 = (Inr tx, w2)"
      "videoRun e arg w = (Completed,
         w2\<lparr>postedVideosFile :=
             (if specificMode arg then postedVideosFile w2
              else snd (savePostedVideo e
                \<lparr>videoId = video_id tv, videoCoinName = title tv,
                 videoZoraTransaction = tx, videoPostedAt = now e\<rparr> (postedVideosFile w2))),
           youtubePostingLog := youtubePostingLog w2 @ [SUCCESS (video_id tv) tx]\<rparr>)"
proof -
  let ?w = "w\<lparr>calls := []\<rparr>"
  show thesis
  proof (cases "targetVideo e arg w")
    case (Inl err)
    then have "targetVideo e arg ?w = Inl err" by (simp add: targetVideo_calls)
    then have "videoMain e arg ?w = (Exited 1, ?w\<lparr>youtubePostingLog := youtubePostingLog ?w @ [FAILED err]\<rparr>)"
      by (rule videoMain_target_fails)
    then show thesis using Inl by (intro target [of err]) (simp_all add: videoRun_def)
  next
    case (Inr tv)
    then have t: "targetVideo e arg ?w = Inr tv" by (simp add: targetVideo_calls)
    obtain r w1 where d: "downloadShortVideo e (video_id tv) ?w = (r, w1)"
      by (cases "downloadShortVideo e (video_id tv) ?w")
    show thesis
    proof (cases r)
      case (Inl err)
      with d have d': "downloadShortVideo e (video_id tv) ?w = (Inl err, w1)" by simp
      have "videoMain e arg ?w = (Exited 1, w1\<lparr>youtubePostingLog := youtubePostingLog w1 @ [FAILED err]\<rparr>)"
        using t d' by (rule videoMain_download_fails)
      then show thesis using Inr d' by (intro download [of tv err w1]) (simp_all add: videoRun_def)
    next
      case (Inr paths)
      obtain vp tp where "paths = (vp, tp)" by (cases paths)
      with d Inr have d': "downloadShortVideo e (video_id tv) ?w = (Inr (vp, tp), w1)" by simp
      obtain m w2 where c: "createZoraCoinWithVideo e tv vp tp w1 = (m, w2)"
        by (cases "createZoraCoinWithVideo e tv vp tp w1")
      show thesis
      proof (cases m)
        case (Inl err)
        with c have c': "createZoraCoinWithVideo e tv vp tp w1 = (Inl err, w2)" by simp
        have "videoMain e arg ?w = (Exited 1, w2\<lparr>youtubePostingLog := youtubePostingLog w2 @ [FAILED err]\<rparr>)"
          using t d' c' by (rule videoMain_mint_fails)
        then show thesis using \<open>targetVideo e arg w = Inr tv\<close> d' c'
          by (intro mintFails [of tv vp tp w1 err w2]) (simp_all add: videoRun_def)
      next
        case (Inr tx)
        with c have c': "createZoraCoinWithVideo e tv vp tp w1 = (Inr tx, w2)" by simp
        have "videoMain e arg ?w = (Completed,
           w2\<lparr>postedVideosFile :=
             (if specificMode arg then postedVideosFile w2
              else snd (savePostedVideo e
                \<lparr>videoId = video_id tv, videoCoinName = title tv,
                 videoZoraTransaction = tx, videoPostedAt = now e\<rparr> (postedVideosFile w2))),
           youtubePostingLog := youtubePostingLog w2 @ [SUCCESS (video_id tv) tx]\<rparr>)"
          using t d' c' by (rule videoMain_mint_ok)
        then show thesis using \<open>targetVideo e arg w = Inr tv\<close> d' c'
          by (intro mintOk [of tv vp tp w1 tx w2]) (simp_all add: videoRun_def)
      qed
    qed
  qed
qed

text \<open>What the download and the hand-off leave of the world of a run.\<close>

lemma download_facts:
  assumes "downloadShortVideo e v (w\<lparr>calls := []\<rparr>) = (r, w1)"
  shows "postedVideosFile w1 = postedVideosFile w \<and>
    (\<forall>c \<in> set (calls w1). isDownload c \<and> callId c = v)"
proof -
  have "postedVideosFile (snd (downloadShortVideo e v (w\<lparr>calls := []\<rparr>))) = postedVideosFile w"
    unfolding downloadShortVideo_def using tryStrategies_frame [of e v formatStrategies "w\<lparr>calls := []\<rparr>"]
    by simp
  moreover have "\<forall>c \<in> set (calls (snd (downloadShortVideo e v (w\<lparr>calls := []\<rparr>)))).
      isDownload c \<and> callId c = v"
    using downloadShortVideo_calls [of e v "w\<lparr>calls := []\<rparr>"] by simp
  ultimately show ?thesis using assms by simp
qed

lemma handoff_facts:
  assumes "createZoraCoinWithVideo e tv vp tp w1 = (m, w2)"
  shows "postedVideosFile w2 = postedVideosFile w1 \<and> calls w2 = calls w1 @ [Mint (video_id tv) m]"
  using createZoraCoinWithVideo_frame [of e tv vp tp w1] assms by simp

section \<open>Processed items are skipped\<close>

lemma tweetRun_calls_fresh:
  "\<forall>c \<in> set (calls (snd (tweetRun e w))). callId c \<notin> loadPostedTweets (postedTweetsFile w)"
  by (cases e w rule: tweetRun_cases) simp_all

lemma videoRun_calls_fresh:
  assumes "\<not> specificMode arg"
  shows "\<forall>c \<in> set (calls (snd (videoRun e arg w))). callId c \<notin> loadPostedVideos (postedVideosFile w)"
proof (cases e arg w rule: videoRun_cases)
  case (target err)
  then show ?thesis by simp
next
  case (download tv err w1)
  have "video_id tv \<notin> loadPostedVideos (postedVideosFile w)"
    using assms download(1) by (rule targetVideo_fresh)
  then show ?thesis using download(3) download_facts [OF download(2)] by simp
next
  case (mintFails tv vp tp w1 err w2)
  have "video_id tv \<notin> loadPostedVideos (postedVideosFile w)"
    using assms mintFails(1) by (rule targetVideo_fresh)
  then show ?thesis
    using mintFails(4) download_facts [OF mintFails(2)] handoff_facts [OF mintFails(3)] by auto
next
  case (mintOk tv vp tp w1 tx w2)
  have "video_id tv \<notin> loadPostedVideos (postedVideosFile w)"
    using assms mintOk(1) by (rule targetVideo_fresh)
  then show ?thesis
    using mintOk(4) download_facts [OF mintOk(2)] handoff_facts [OF mintOk(3)] by auto
qed

lemma videoRun_already_posted:
  assumes "\<not> specificMode arg" "fetchChannels e = Body (playlist # playlists)"
    and "fetchPlaylistItems e playlist = Body (item # items)"
    and "item_videoId item \<in> loadPostedVideos (postedVideosFile w)"
  shows "videoRun e arg w = (Exited 1,
     w\<lparr>calls := [], youtubePostingLog := youtubePostingLog w @ [FAILED AlreadyPosted]\<rparr>)"
proof -
  have "targetVideo e arg (w\<lparr>calls := []\<rparr>) = Inl AlreadyPosted"
    using assms by (cases arg) (simp_all add: targetVideo_def specificMode_def getLatestShorts_def)
  then have "videoMain e arg (w\<lparr>calls := []\<rparr>) = (Exited 1,
      w\<lparr>calls := [], youtubePostingLog := youtubePostingLog (w\<lparr>calls := []\<rparr>) @ [FAILED AlreadyPosted]\<rparr>)"
    by (rule videoMain_target_fails)
  then show ?thesis by (simp add: videoRun_def)
qed

lemma tweetRun_all_posted:
  assumes "userTimeline e = Inr (tweets, media)" "tweets \<noteq> []"
    and "\<forall>t \<in> set tweets. tweet_id t \<in> loadPostedTweets (postedTweetsFile w)"
  shows "tweetRun e w = (Exited 1,
     w\<lparr>calls := [], dailyPostingLog := dailyPostingLog w @ [FAILED NoValidImagePosts]\<rparr>)"
proof -
  have "findImagePost (loadPostedTweets (postedTweetsFile w)) media tweets = None"
    using assms(3) by (rule findImagePost_all_posted)
  then have "getLatestImagePost e (loadPostedTweets (postedTweetsFile (w\<lparr>calls := []\<rparr>)))
      = Inl NoValidImagePosts"
    using assms(1,2) by (simp add: getLatestImagePost_def)
  then have "tweetMain e (w\<lparr>calls := []\<rparr>) = (Exited 1,
      w\<lparr>calls := [], dailyPostingLog := dailyPostingLog (w\<lparr>calls := []\<rparr>) @ [FAILED NoValidImagePosts]\<rparr>)"
    by (rule tweetMain_fetch_fails)
  then show ?thesis by (simp add: tweetRun_def)
qed

text \<open>
  Claim C8. In a run of the image script, and in a run of the video script without a
  video id on the command line, no call of the downloader or of the minting hand-off is
  made for an item whose id is in the ledger. When the latest video is in the ledger,
  and when every tweet of the timeline is, the run ends with status 1, no call made, and
  nothing changed but the run log.
\<close>

theorem processed_items_are_skipped:
  "(\<forall>c \<in> set (calls (snd (tweetRun e w))).
      callId c \<notin> loadPostedTweets (postedTweetsFile w)) \<and>
   (\<not> specificMode arg \<longrightarrow>
      (\<forall>c \<in> set (calls (snd (videoRun e arg w))).
         callId c \<notin> loadPostedVideos (postedVideosFile w))) \<and>
   (\<not> specificMode arg \<and> fetchChannels e = Body (playlist # playlists) \<and>
    fetchPlaylistItems e playlist = Body (item # items) \<and>
    item_videoId item \<in> loadPostedVideos (postedVideosFile w) \<longrightarrow>
      videoRun e arg w = (Exited 1,
        w\<lparr>calls := [], youtubePostingLog := youtubePostingLog w @ [FAILED AlreadyPosted]\<rparr>)) \<and>
   (userTimeline e = Inr (tweets, media) \<and> tweets \<noteq> [] \<and>
    (\<forall>t \<in> set tweets. tweet_id t \<in> loadPostedTweets (postedTweetsFile w)) \<longrightarrow>
      tweetRun e w = (Exited 1,
        w\<lparr>calls := [], dailyPostingLog := dailyPostingLog w @ [FAILED NoValidImagePosts]\<rparr>))"
proof (intro conjI impI)
  show "\<forall>c \<in> set (calls (snd (tweetRun e w))).
      callId c \<notin> loadPostedTweets (postedTweetsFile w)"
    by (rule tweetRun_calls_fresh)
next
  assume "\<not> specificMode arg"
  then show "\<forall>c \<in> set (calls (snd (videoRun e arg w))).
      callId c \<notin> loadPostedVideos (postedVideosFile w)"
    by (rule videoRun_calls_fresh)
next
  assume "\<not> specificMode arg \<and> fetchChannels e = Body (playlist # playlists) \<and>
    fetchPlaylistItems e playlist = Body (item # items) \<and>
    item_videoId item \<in> loadPostedVideos (postedVideosFile w)"
  then show "videoRun e arg w = (Exited 1,
      w\<lparr>calls := [], youtubePostingLog := youtubePostingLog w @ [FAILED AlreadyPosted]\<rparr>)"
    using videoRun_already_posted [of arg e playlist playlists item items w] by simp
next
  assume "userTimeline e = Inr (tweets, media) \<and> tweets \<noteq> [] \<and>
    (\<forall>t \<in> set tweets. tweet_id t \<in> loadPostedTweets (postedTweetsFile w))"
  then show "tweetRun e w = (Exited 1,
      w\<lparr>calls := [], dailyPostingLog := dailyPostingLog w @ [FAILED NoValidImagePosts]\<rparr>)"
    using tweetRun_all_posted [of e tweets media w] by simp
qed

theorem processed_items_are_skipped_witness:
  "videoRun videoEnv None (emptyWorld\<lparr>postedVideosFile := Records [sampleVideoRecord ''vid'']\<rparr>) =
     (Exited 1, emptyWorld\<lparr>postedVideosFile := Records [sampleVideoRecord ''vid''],
        youtubePostingLog := [FAILED AlreadyPosted]\<rparr>) \<and>
   tweetRun tweetEnv (emptyWorld\<lparr>postedTweetsFile := Records [sampleRecord ''101'']\<rparr>) =
     (Exited 1, emptyWorld\<lparr>postedTweetsFile := Records [sampleRecord ''101''],
        dailyPostingLog := [FAILED NoValidImagePosts]\<rparr>) \<and>
   calls (snd (tweetRun tweetEnv emptyWorld)) = [Mint ''101'' (Inr ''0xabc'')] \<and>
   ''101'' \<notin> loadPostedTweets (postedTweetsFile emptyWorld) \<and>
   ''vid'' \<notin> loadPostedVideos (postedVideosFile emptyWorld)"
proof -
  let ?wv = "emptyWorld\<lparr>postedVideosFile := Records [sampleVideoRecord ''vid'']\<rparr>"
  let ?wt = "emptyWorld\<lparr>postedTweetsFile := Records [sampleRecord ''101'']\<rparr>"
  have e: "\<not> specificMode None" "fetchChannels videoEnv = Body [''UUtm'']"
    "fetchPlaylistItems videoEnv ''UUtm'' = Body [sampleSnippet ''vid'']"
    "userTimeline tweetEnv = Inr ([sampleTweet ''101'' ''101'' 10 False], [samplePhoto ''101''])"
    by (simp_all add: run_eval)
  have v: "item_videoId (sampleSnippet ''vid'') \<in> loadPostedVideos (postedVideosFile ?wv)"
    by (simp add: run_eval)
  have t: "\<forall>t \<in> set [sampleTweet ''101'' ''101'' 10 False].
      tweet_id t \<in> loadPostedTweets (postedTweetsFile ?wt)"
    by (simp add: run_eval)
  have a: "videoRun videoEnv None ?wv = (Exited 1,
      ?wv\<lparr>calls := [], youtubePostingLog := youtubePostingLog ?wv @ [FAILED AlreadyPosted]\<rparr>)"
    using processed_items_are_skipped [where e = videoEnv and w = ?wv and arg = None
        and playlist = "''UUtm''" and playlists = "[]" and item = "sampleSnippet ''vid''"
        and items = "[]"] e v
    by simp
  have b: "tweetRun tweetEnv ?wt = (Exited 1,
      ?wt\<lparr>calls := [], dailyPostingLog := dailyPostingLog ?wt @ [FAILED NoValidImagePosts]\<rparr>)"
    using processed_items_are_skipped [where e = tweetEnv and w = ?wt
        and tweets = "[sampleTweet ''101'' ''101'' 10 False]" and media = "[samplePhoto ''101'']"] e t
    by simp
  have c: "calls (snd (tweetRun tweetEnv emptyWorld)) = [Mint ''101'' (Inr ''0xabc'')]"
    by (simp add: run_eval cleanTextBasic_def trim_def isSpace_def linkAt_def linkPrefix_def)
  have d: "''101'' \<notin> loadPostedTweets (postedTweetsFile emptyWorld)"
    using processed_items_are_skipped [where e = tweetEnv and w = emptyWorld] c by simp
  have f: "''vid'' \<notin> loadPostedVideos (postedVideosFile emptyWorld)"
    by (simp add: run_eval)
  from a b c d f show ?thesis by (simp add: emptyWorld_def)
qed

section \<open>Recording never breaks the run\<close>

lemma savePosted_write_fails: "snd (savePosted K False r f) = f"
  by (simp add: savePosted_cases)

lemma savePosted_not_array: "snd (savePosted K ok r NotArray) = NotArray"
  by (simp add: savePosted_cases)

text \<open>
  Claim C10. The record operations always return normally, whatever the ledger file
  holds and whether or not it can be written. A run whose hand-off succeeded completes
  with status 0 in every such case; when the write fails, or the file holds a JSON value
  that is no array, the ledger is left as it was.
\<close>

theorem record_never_throws:
  "fst (savePostedTweet e r f) = Inr () \<and>
   fst (savePostedVideo e r' f') = Inr () \<and>
   ((\<exists>i tx. Mint i (Inr tx) \<in> set (calls (snd (tweetRun e w)))) \<longrightarrow>
      fst (tweetRun e w) = Completed) \<and>
   ((\<exists>i tx. Mint i (Inr tx) \<in> set (calls (snd (videoRun e arg w)))) \<longrightarrow>
      fst (videoRun e arg w) = Completed) \<and>
   (\<not> writeFileOk e \<or> postedTweetsFile w = NotArray \<longrightarrow>
      postedTweetsFile (snd (tweetRun e w)) = postedTweetsFile w) \<and>
   (\<not> writeFileOk e \<or> postedVideosFile w = NotArray \<longrightarrow>
      postedVideosFile (snd (videoRun e arg w)) = postedVideosFile w)"
proof -
  have a: "fst (savePostedTweet e r f) = Inr ()"
    by (simp add: savePostedTweet_def savePosted_returns)
  have b: "fst (savePostedVideo e r' f') = Inr ()"
    by (simp add: savePostedVideo_def savePosted_returns)
  have c: "(\<exists>i tx. Mint i (Inr tx) \<in> set (calls (snd (tweetRun e w)))) \<longrightarrow>
      fst (tweetRun e w) = Completed"
    by (cases e w rule: tweetRun_cases) simp_all
  have d: "(\<exists>i tx. Mint i (Inr tx) \<in> set (calls (snd (videoRun e arg w)))) \<longrightarrow>
      fst (videoRun e arg w) = Completed"
  proof (cases e arg w rule: videoRun_cases)
    case (target err)
    then show ?thesis by simp
  next
    case (download tv err w1)
    then show ?thesis using download_facts [OF download(2)] by auto
  next
    case (mintFails tv vp tp w1 err w2)
    then show ?thesis
      using download_facts [OF mintFails(2)] handoff_facts [OF mintFails(3)] by auto
  next
    case (mintOk tv vp tp w1 tx w2)
    then show ?thesis by simp
  qed
  have f: "\<not> writeFileOk e \<or> postedTweetsFile w = NotArray \<longrightarrow>
      postedTweetsFile (snd (tweetRun e w)) = postedTweetsFile w"
    by (cases e w rule: tweetRun_cases)
      (auto simp: savePostedTweet_def savePosted_write_fails savePosted_not_array)
  have g: "\<not> writeFileOk e \<or> postedVideosFile w = NotArray \<longrightarrow>
      postedVideosFile (snd (videoRun e arg w)) = postedVideosFile w"
  proof (cases e arg w rule: videoRun_cases)
    case (target err)
    then show ?thesis by simp
  next
    case (download tv err w1)
    then show ?thesis using download_facts [OF download(2)] by simp
  next
    case (mintFails tv vp tp w1 err w2)
    then show ?thesis
      using download_facts [OF mintFails(2)] handoff_facts [OF mintFails(3)] by simp
  next
    case (mintOk tv vp tp w1 tx w2)
    then show ?thesis
      using download_facts [OF mintOk(2)] handoff_facts [OF mintOk(3)]
      by (auto simp: savePostedVideo_def savePosted_write_fails savePosted_not_array)
  qed
  from a b c d f g show ?thesis by (intro conjI)
qed

theorem record_never_throws_witness:
  "calls (snd (tweetRun (tweetEnv\<lparr>writeFileOk := False\<rparr>) emptyWorld))
     = [Mint ''101'' (Inr ''0xabc'')] \<and>
   fst (tweetRun (tweetEnv\<lparr>writeFileOk := False\<rparr>) emptyWorld) = Completed \<and>
   postedTweetsFile (snd (tweetRun (tweetEnv\<lparr>writeFileOk := False\<rparr>) emptyWorld)) = NoFile \<and>
   calls (snd (videoRun videoEnv None (emptyWorld\<lparr>postedVideosFile := NotArray\<rparr>)))
     = [Download ''vid'' ''232+233-9/231+233-9/230+233-9'' (Inr (''vid.mp4'', ''vid.jpg'')),
        Mint ''vid'' (Inr ''0xabc'')] \<and>
   fst (videoRun videoEnv None (emptyWorld\<lparr>postedVideosFile := NotArray\<rparr>)) = Completed \<and>
   postedVideosFile (snd (videoRun videoEnv None (emptyWorld\<lparr>postedVideosFile := NotArray\<rparr>)))
     = NotArray"
proof -
  let ?e = "tweetEnv\<lparr>writeFileOk := False\<rparr>"
  let ?w = "emptyWorld\<lparr>postedVideosFile := NotArray\<rparr>"
  note inst1 = record_never_throws [where e = ?e and w = emptyWorld and arg = None]
  note inst2 = record_never_throws [where e = videoEnv and w = ?w and arg = None]
  have a: "calls (snd (tweetRun ?e emptyWorld)) = [Mint ''101'' (Inr ''0xabc'')]"
    by (simp add: run_eval cleanTextBasic_def trim_def isSpace_def linkAt_def linkPrefix_def)
  then have "\<exists>i tx. Mint i (Inr tx) \<in> set (calls (snd (tweetRun ?e emptyWorld)))"
    by simp
  then have b: "fst (tweetRun ?e emptyWorld) = Completed"
    using inst1 by blast
  have "\<not> writeFileOk ?e" by simp
  then have c: "postedTweetsFile (snd (tweetRun ?e emptyWorld)) = NoFile"
    using inst1 by (simp add: emptyWorld_def)
  have d: "calls (snd (videoRun videoEnv None ?w))
     = [Download ''vid'' ''232+233-9/231+233-9/230+233-9'' (Inr (''vid.mp4'', ''vid.jpg'')),
        Mint ''vid'' (Inr ''0xabc'')]"
    by (simp add: run_eval)
  then have "\<exists>i tx. Mint i (Inr tx) \<in> set (calls (snd (videoRun videoEnv None ?w)))"
    by simp
  then have f: "fst (videoRun videoEnv None ?w) = Completed"
    using inst2 by blast
  have "postedVideosFile ?w = NotArray" by simp
  then have g: "postedVideosFile (snd (videoRun videoEnv None ?w)) = NotArray"
    using inst2 by simp
  from a b c d f g show ?thesis by (intro conjI)
qed

section \<open>Minting and recording\<close>

lemma savePosted_records:
  assumes "0 < K" "f \<noteq> NotArray"
  shows "idOf r \<in> loadPosted idOf (snd (savePosted K True r f))"
proof -
  have last_kept: "r \<in> set (if length (xs @ [r]) > K then sliceLast K (xs @ [r]) else xs @ [r])" for xs
  proof -
    have "drop (length (xs @ [r]) - K) (xs @ [r]) = drop (length (xs @ [r]) - K) xs @ [r]"
      using assms(1) by simp
    then have "r \<in> set (drop (length (xs @ [r]) - K) (xs @ [r]))" by simp
    then show ?thesis using capped_drop [OF assms(1), of "xs @ [r]"] by simp
  qed
  show ?thesis
  proof (cases f)
    case (Records rs)
    then show ?thesis
      using last_kept [of rs] by (simp add: savePosted_cases loadPosted_def readAndParse_def)
  next
    case NotArray
    with assms show ?thesis by simp
  qed (use last_kept [of "[]"] assms(1) in
      \<open>simp_all add: savePosted_cases loadPosted_def readAndParse_def\<close>)
qed

text \<open>
  Claim C1, as amended. A record is written to a ledger only in a run whose minting
  hand-off succeeded; when the hand-off fails, the ledger is left as it was and the run
  exits with status 1. After a successful hand-off of the image script, and of the video
  script without a video id on the command line, the id of the item is in the ledger
  whenever the ledger file can be written and does not hold a JSON value that is no
  array. With a video id on the command line the video script never writes the ledger.
\<close>

theorem record_follows_mint:
  "((\<exists>i err. Mint i (Inl err) \<in> set (calls (snd (tweetRun e w)))) \<longrightarrow>
      postedTweetsFile (snd (tweetRun e w)) = postedTweetsFile w \<and>
      fst (tweetRun e w) = Exited 1) \<and>
   ((\<exists>i err. Mint i (Inl err) \<in> set (calls (snd (videoRun e arg w)))) \<longrightarrow>
      postedVideosFile (snd (videoRun e arg w)) = postedVideosFile w \<and>
      fst (videoRun e arg w) = Exited 1) \<and>
   (postedTweetsFile (snd (tweetRun e w)) \<noteq> postedTweetsFile w \<longrightarrow>
      (\<exists>i tx. Mint i (Inr tx) \<in> set (calls (snd (tweetRun e w))))) \<and>
   (postedVideosFile (snd (videoRun e arg w)) \<noteq> postedVideosFile w \<longrightarrow>
      (\<exists>i tx. Mint i (Inr tx) \<in> set (calls (snd (videoRun e arg w)))) \<and> \<not> specificMode arg) \<and>
   (\<forall>i tx. Mint i (Inr tx) \<in> set (calls (snd (tweetRun e w))) \<and> writeFileOk e \<and>
      postedTweetsFile w \<noteq> NotArray \<longrightarrow>
      i \<in> loadPostedTweets (postedTweetsFile (snd (tweetRun e w)))) \<and>
   (\<forall>i tx. \<not> specificMode arg \<and> Mint i (Inr tx) \<in> set (calls (snd (videoRun e arg w))) \<and>
      writeFileOk e \<and> postedVideosFile w \<noteq> NotArray \<longrightarrow>
      i \<in> loadPostedVideos (postedVideosFile (snd (videoRun e arg w)))) \<and>
   (specificMode arg \<longrightarrow> postedVideosFile (snd (videoRun e arg w)) = postedVideosFile w)"
proof -
  have k1: "(0::nat) < 1000" and k2: "(0::nat) < 100" by simp_all
  have tweets:
    "((\<exists>i err. Mint i (Inl err) \<in> set (calls (snd (tweetRun e w)))) \<longrightarrow>
        postedTweetsFile (snd (tweetRun e w)) = postedTweetsFile w \<and>
        fst (tweetRun e w) = Exited 1) \<and>
     (postedTweetsFile (snd (tweetRun e w)) \<noteq> postedTweetsFile w \<longrightarrow>
        (\<exists>i tx. Mint i (Inr tx) \<in> set (calls (snd (tweetRun e w))))) \<and>
     (\<forall>i tx. Mint i (Inr tx) \<in> set (calls (snd (tweetRun e w))) \<and> writeFileOk e \<and>
        postedTweetsFile w \<noteq> NotArray \<longrightarrow>
        i \<in> loadPostedTweets (postedTweetsFile (snd (tweetRun e w))))"
  proof (cases e w rule: tweetRun_cases)
    case (fetch err)
    then show ?thesis by simp
  next
    case (mintFails post err)
    then show ?thesis by simp
  next
    case (mintOk post tx)
    let ?r = "\<lparr>tweetId = tweet_id post,
       tweetCoinName = ''tokenmetrics#'' @ sliceLast 6 (tweet_id post),
       tweetZoraTransaction = tx, tweetPostedAt = now e\<rparr>"
    have "tweetId ?r \<in> loadPosted tweetId (snd (savePosted 1000 True ?r (postedTweetsFile w)))"
      if "postedTweetsFile w \<noteq> NotArray"
      using k1 that by (rule savePosted_records)
    then have "postedTweetsFile w \<noteq> NotArray \<longrightarrow>
        tweet_id post \<in> loadPosted tweetId (snd (savePosted 1000 True ?r (postedTweetsFile w)))"
      by simp
    with mintOk show ?thesis
      by (auto simp: savePostedTweet_def loadPostedTweets_def)
  qed
  have videos:
    "((\<exists>i err. Mint i (Inl err) \<in> set (calls (snd (videoRun e arg w)))) \<longrightarrow>
        postedVideosFile (snd (videoRun e arg w)) = postedVideosFile w \<and>
        fst (videoRun e arg w) = Exited 1) \<and>
     (postedVideosFile (snd (videoRun e arg w)) \<noteq> postedVideosFile w \<longrightarrow>
        (\<exists>i tx. Mint i (Inr tx) \<in> set (calls (snd (videoRun e arg w)))) \<and> \<not> specificMode arg) \<and>
     (\<forall>i tx. \<not> specificMode arg \<and> Mint i (Inr tx) \<in> set (calls (snd (videoRun e arg w))) \<and>
        writeFileOk e \<and> postedVideosFile w \<noteq> NotArray \<longrightarrow>
        i \<in> loadPostedVideos (postedVideosFile (snd (videoRun e arg w)))) \<and>
     (specificMode arg \<longrightarrow> postedVideosFile (snd (videoRun e arg w)) = postedVideosFile w)"
  proof (cases e arg w rule: videoRun_cases)
    case (target err)
    then show ?thesis by simp
  next
    case (download tv err w1)
    then show ?thesis using download_facts [OF download(2)] by auto
  next
    case (mintFails tv vp tp w1 err w2)
    then show ?thesis
      using download_facts [OF mintFails(2)] handoff_facts [OF mintFails(3)] by auto
  next
    case (mintOk tv vp tp w1 tx w2)
    have p: "postedVideosFile w2 = postedVideosFile w"
      using download_facts [OF mintOk(2)] handoff_facts [OF mintOk(3)] by simp
    have c: "\<forall>c \<in> set (calls w2). isDownload c \<or> c = Mint (video_id tv) (Inr tx)"
      using download_facts [OF mintOk(2)] handoff_facts [OF mintOk(3)] by auto
    have m: "i = video_id tv" if "Mint i (Inr t) \<in> set (calls w2)" for i t
      using c that by fastforce
    have ok: "Mint (video_id tv) (Inr tx) \<in> set (calls w2)"
      using handoff_facts [OF mintOk(3)] by simp
    have nofail: "Mint i (Inl err) \<notin> set (calls w2)" for i err
      using c by fastforce
    let ?r = "\<lparr>videoId = video_id tv, videoCoinName = title tv,
       videoZoraTransaction = tx, videoPostedAt = now e\<rparr>"
    have r1: "fst (videoRun e arg w) = Completed"
      and r2: "calls (snd (videoRun e arg w)) = calls w2"
      and r3: "postedVideosFile (snd (videoRun e arg w)) =
        (if specificMode arg then postedVideosFile w
         else snd (savePostedVideo e ?r (postedVideosFile w)))"
      using mintOk(4) p by simp_all
    have rec: "video_id tv \<in> loadPostedVideos (snd (savePostedVideo e ?r (postedVideosFile w)))"
      if "writeFileOk e" "postedVideosFile w \<noteq> NotArray"
    proof -
      have "videoId ?r \<in> loadPosted videoId (snd (savePosted 100 True ?r (postedVideosFile w)))"
        using k2 that(2) by (rule savePosted_records)
      then show ?thesis using that(1) by (simp add: savePostedVideo_def loadPostedVideos_def)
    qed
    have c1: "(\<exists>i err. Mint i (Inl err) \<in> set (calls (snd (videoRun e arg w)))) \<longrightarrow>
        postedVideosFile (snd (videoRun e arg w)) = postedVideosFile w \<and>
        fst (videoRun e arg w) = Exited 1"
      unfolding r2 using nofail by blast
    have c2: "postedVideosFile (snd (videoRun e arg w)) \<noteq> postedVideosFile w \<longrightarrow>
        (\<exists>i tx. Mint i (Inr tx) \<in> set (calls (snd (videoRun e arg w)))) \<and> \<not> specificMode arg"
      unfolding r2 r3 using ok by (cases "specificMode arg") auto
    have c3: "\<forall>i tx. \<not> specificMode arg \<and> Mint i (Inr tx) \<in> set (calls (snd (videoRun e arg w))) \<and>
        writeFileOk e \<and> postedVideosFile w \<noteq> NotArray \<longrightarrow>
        i \<in> loadPostedVideos (postedVideosFile (snd (videoRun e arg w)))"
    proof (intro allI impI, elim conjE)
      fix i t
      assume a: "\<not> specificMode arg" "Mint i (Inr t) \<in> set (calls (snd (videoRun e arg w)))"
        "writeFileOk e" "postedVideosFile w \<noteq> NotArray"
      from a(2) have "i = video_id tv" unfolding r2 by (rule m)
      then show "i \<in> loadPostedVideos (postedVideosFile (snd (videoRun e arg w)))"
        unfolding r3 using a(1) rec [OF a(3,4)] by simp
    qed
    have c4: "specificMode arg \<longrightarrow> postedVideosFile (snd (videoRun e arg w)) = postedVideosFile w"
      unfolding r3 by simp
    from c1 c2 c3 c4 show ?thesis by (intro conjI)
  qed
  from tweets videos show ?thesis by (intro conjI) (elim conjE, assumption)+
qed

theorem record_follows_mint_witness:
  "calls (snd (tweetRun (tweetEnv\<lparr>createCoin := (\<lambda>v d. Inl CoinCreationFailed)\<rparr>) emptyWorld))
     = [Mint ''101'' (Inl CoinCreationFailed)] \<and>
   postedTweetsFile (snd (tweetRun (tweetEnv\<lparr>createCoin := (\<lambda>v d. Inl CoinCreationFailed)\<rparr>)
      emptyWorld)) = NoFile \<and>
   fst (tweetRun (tweetEnv\<lparr>createCoin := (\<lambda>v d. Inl CoinCreationFailed)\<rparr>) emptyWorld)
     = Exited 1 \<and>
   calls (snd (tweetRun tweetEnv emptyWorld)) = [Mint ''101'' (Inr ''0xabc'')] \<and>
   ''101'' \<in> loadPostedTweets (postedTweetsFile (snd (tweetRun tweetEnv emptyWorld))) \<and>
   ''vid'' \<in> loadPostedVideos (postedVideosFile (snd (videoRun videoEnv None emptyWorld))) \<and>
   specificMode (Some ''vid'') \<and>
   postedVideosFile (snd (videoRun videoEnv (Some ''vid'') emptyWorld)) = NoFile"
proof -
  let ?e = "tweetEnv\<lparr>createCoin := (\<lambda>v d. Inl CoinCreationFailed)\<rparr>"
  note fail = record_follows_mint [where e = ?e and w = emptyWorld and arg = None]
  note good = record_follows_mint [where e = tweetEnv and w = emptyWorld and arg = None]
  note latest = record_follows_mint [where e = videoEnv and w = emptyWorld and arg = None]
  note specific = record_follows_mint [where e = videoEnv and w = emptyWorld and arg = "Some ''vid''"]
  have a: "calls (snd (tweetRun ?e emptyWorld)) = [Mint ''101'' (Inl CoinCreationFailed)]"
    by (simp add: run_eval cleanTextBasic_def trim_def isSpace_def linkAt_def linkPrefix_def)
  then have "\<exists>i err. Mint i (Inl err) \<in> set (calls (snd (tweetRun ?e emptyWorld)))"
    by simp
  then have b: "postedTweetsFile (snd (tweetRun ?e emptyWorld)) = postedTweetsFile emptyWorld \<and>
      fst (tweetRun ?e emptyWorld) = Exited 1"
    using fail by blast
  have c: "calls (snd (tweetRun tweetEnv emptyWorld)) = [Mint ''101'' (Inr ''0xabc'')]"
    by (simp add: run_eval cleanTextBasic_def trim_def isSpace_def linkAt_def linkPrefix_def)
  have ok: "writeFileOk tweetEnv" "postedTweetsFile emptyWorld \<noteq> NotArray"
    "writeFileOk videoEnv" "postedVideosFile emptyWorld \<noteq> NotArray" "\<not> specificMode None"
    by (simp_all add: run_eval)
  have "Mint ''101'' (Inr ''0xabc'') \<in> set (calls (snd (tweetRun tweetEnv emptyWorld)))"
    by (simp add: c)
  then have d: "''101'' \<in> loadPostedTweets (postedTweetsFile (snd (tweetRun tweetEnv emptyWorld)))"
    using good ok by blast
  have "Mint ''vid'' (Inr ''0xabc'') \<in> set (calls (snd (videoRun videoEnv None emptyWorld)))"
    by (simp add: run_eval)
  then have f: "''vid'' \<in> loadPostedVideos (postedVideosFile (snd (videoRun videoEnv None emptyWorld)))"
    using latest ok by blast
  have g: "specificMode (Some ''vid'')" by (simp add: specificMode_def)
  then have h: "postedVideosFile (snd (videoRun videoEnv (Some ''vid'') emptyWorld))
      = postedVideosFile emptyWorld"
    using specific by blast
  from a b c d f g h show ?thesis by (simp add: emptyWorld_def)
qed

text \<open>
  The claim as first stated fails: with a video id on the command line, and also when the
  ledger cannot be written, the item is minted, the run completes and the id is not in
  the ledger.
\<close>

theorem record_follows_mint_counterexample:
  "fst (videoRun videoEnv (Some ''vid'') emptyWorld) = Completed \<and>
   Mint ''vid'' (Inr ''0xabc'') \<in> set (calls (snd (videoRun videoEnv (Some ''vid'') emptyWorld))) \<and>
   ''vid'' \<notin> loadPostedVideos (postedVideosFile (snd (videoRun videoEnv (Some ''vid'') emptyWorld))) \<and>
   fst (tweetRun (tweetEnv\<lparr>writeFileOk := False\<rparr>) emptyWorld) = Completed \<and>
   Mint ''101'' (Inr ''0xabc'') \<in>
     set (calls (snd (tweetRun (tweetEnv\<lparr>writeFileOk := False\<rparr>) emptyWorld))) \<and>
   ''101'' \<notin> loadPostedTweets (postedTweetsFile
     (snd (tweetRun (tweetEnv\<lparr>writeFileOk := False\<rparr>) emptyWorld))) \<and>
   fst (tweetRun tweetEnv (emptyWorld\<lparr>postedTweetsFile := NotArray\<rparr>)) = Completed \<and>
   Mint ''101'' (Inr ''0xabc'') \<in>
     set (calls (snd (tweetRun tweetEnv (emptyWorld\<lparr>postedTweetsFile := NotArray\<rparr>)))) \<and>
   ''101'' \<notin> loadPostedTweets (postedTweetsFile
     (snd (tweetRun tweetEnv (emptyWorld\<lparr>postedTweetsFile := NotArray\<rparr>))))"
  by (simp add: run_eval cleanTextBasic_def trim_def isSpace_def linkAt_def linkPrefix_def)

section \<open>Release of the downloaded files\<close>

text \<open>
  Where the hand-off makes account and clients without an exception and both deletions
  succeed, the two files that the download returned exist and are both deleted when the
  hand-off ends, whether it returns or throws, and they are absent after the run.
\<close>

lemma handoff_cleanup:
  assumes "walletOk e" and "unlinkOk e vp" and "unlinkOk e tp"
    and "targetVideo e arg w = Inr tv"
    and "downloadShortVideo e (video_id tv) (w\<lparr>calls := []\<rparr>) = (Inr (vp, tp), w1)"
  shows "vp \<in> set (downloads w1) \<and> tp \<in> set (downloads w1) \<and>
    downloads (snd (createZoraCoinWithVideo e tv vp tp w1)) =
      removeAll tp (removeAll vp (downloads w1)) \<and>
    downloads (snd (videoRun e arg w)) = removeAll tp (removeAll vp (downloads w1)) \<and>
    vp \<notin> set (downloads (snd (videoRun e arg w))) \<and>
    tp \<notin> set (downloads (snd (videoRun e arg w)))"
proof -
  have files: "vp \<in> set (downloads w1) \<and> tp \<in> set (downloads w1) \<and> vp \<noteq> tp"
    using assms(5) unfolding downloadShortVideo_def by (rule tryStrategies_files)
  have handoff: "downloads (snd (createZoraCoinWithVideo e tv vp tp w1)) =
      removeAll tp (removeAll vp (downloads w1))"
    using files assms(1,2,3) by (simp add: createZoraCoinWithVideo_downloads cleanupFiles_removes)
  have run: "downloads (snd (videoRun e arg w)) =
      downloads (snd (createZoraCoinWithVideo e tv vp tp w1))"
  proof (cases e arg w rule: videoRun_cases)
    case (target err)
    with assms(4) show ?thesis by simp
  next
    case (download tv' err w1')
    with assms(4,5) show ?thesis by simp
  next
    case (mintFails tv' vp' tp' w1' err w2)
    with assms(4,5) show ?thesis by simp
  next
    case (mintOk tv' vp' tp' w1' tx w2)
    with assms(4,5) show ?thesis by simp
  qed
  from files handoff run show ?thesis by simp
qed

text \<open>
  Claim C9. The claim asks that downloaded files are deleted on every exit of the
  hand-off and whenever the run aborts. The code does so when the coin is created and
  when the coin creation throws (first two runs). It does not in three runs from an
  empty downloads directory: every format ends with exit code 0 and leaves the video
  file without a thumbnail, the run aborts with status 1 and the video file stays; the
  hand-off throws while it makes account and clients, before its \<^verbatim>\<open>try\<close> block, the run
  aborts with status 1 and both files stay; deleting the video file fails, the deletion
  of the thumbnail is skipped, and both files stay after a completed run.
\<close>

theorem handoff_leaks_files:
  "downloads emptyWorld = [] \<and>
   fst (videoRun videoEnv None emptyWorld) = Completed \<and>
   downloads (snd (videoRun videoEnv None emptyWorld)) = [] \<and>
   fst (videoRun (videoEnv\<lparr>createCoin := (\<lambda>v d. Inl CoinCreationFailed)\<rparr>) None emptyWorld)
     = Exited 1 \<and>
   downloads (snd (videoRun (videoEnv\<lparr>createCoin := (\<lambda>v d. Inl CoinCreationFailed)\<rparr>)
     None emptyWorld)) = [] \<and>
   fst (videoRun partialEnv None emptyWorld) = Exited 1 \<and>
   youtubePostingLog (snd (videoRun partialEnv None emptyWorld)) = [FAILED DownloadedFilesNotFound] \<and>
   downloads (snd (videoRun partialEnv None emptyWorld)) = [''vid.mp4''] \<and>
   fst (videoRun (videoEnv\<lparr>walletOk := False\<rparr>) None emptyWorld) = Exited 1 \<and>
   youtubePostingLog (snd (videoRun (videoEnv\<lparr>walletOk := False\<rparr>) None emptyWorld))
     = [FAILED WalletError] \<and>
   downloads (snd (videoRun (videoEnv\<lparr>walletOk := False\<rparr>) None emptyWorld))
     = [''vid.mp4'', ''vid.jpg''] \<and>
   fst (videoRun (videoEnv\<lparr>unlinkOk := (\<lambda>path. path \<noteq> ''vid.mp4'')\<rparr>) None emptyWorld)
     = Completed \<and>
   downloads (snd (videoRun (videoEnv\<lparr>unlinkOk := (\<lambda>path. path \<noteq> ''vid.mp4'')\<rparr>) None emptyWorld))
     = [''vid.mp4'', ''vid.jpg'']"
proof -
  have a: "downloads emptyWorld = []" by (simp add: emptyWorld_def)
  have b: "fst (videoRun videoEnv None emptyWorld) = Completed"
    "downloads (snd (videoRun videoEnv None emptyWorld)) = []"
    by (simp_all add: run_eval)
  have c: "fst (videoRun (videoEnv\<lparr>createCoin := (\<lambda>v d. Inl CoinCreationFailed)\<rparr>) None emptyWorld)
     = Exited 1"
    "downloads (snd (videoRun (videoEnv\<lparr>createCoin := (\<lambda>v d. Inl CoinCreationFailed)\<rparr>)
     None emptyWorld)) = []"
    by (simp_all add: run_eval)
  have d: "fst (videoRun partialEnv None emptyWorld) = Exited 1"
    "youtubePostingLog (snd (videoRun partialEnv None emptyWorld)) = [FAILED DownloadedFilesNotFound]"
    "downloads (snd (videoRun partialEnv None emptyWorld)) = [''vid.mp4'']"
    by (simp_all add: run_eval)
  have e: "fst (videoRun (videoEnv\<lparr>walletOk := False\<rparr>) None emptyWorld) = Exited 1"
    "youtubePostingLog (snd (videoRun (videoEnv\<lparr>walletOk := False\<rparr>) None emptyWorld))
     = [FAILED WalletError]"
    "downloads (snd (videoRun (videoEnv\<lparr>walletOk := False\<rparr>) None emptyWorld))
     = [''vid.mp4'', ''vid.jpg'']"
    by (simp_all add: run_eval)
  have f: "fst (videoRun (videoEnv\<lparr>unlinkOk := (\<lambda>path. path \<noteq> ''vid.mp4'')\<rparr>) None emptyWorld)
     = Completed"
    "downloads (snd (videoRun (videoEnv\<lparr>unlinkOk := (\<lambda>path. path \<noteq> ''vid.mp4'')\<rparr>) None emptyWorld))
     = [''vid.mp4'', ''vid.jpg'']"
    by (simp_all add: run_eval)
  from a b c d e f show ?thesis by (intro conjI)
qed

section \<open>Uniqueness of the recorded ids\<close>

text \<open>
  Claim C6, as amended. The record operation appends without looking for the id: a ledger
  without duplicate ids stays without duplicates when the recorded id is not yet in it.
  The scripts only record ids that passed the check against the loaded ledger, so a run
  keeps a ledger free of duplicates.
\<close>

theorem ledger_ids_distinct:
  "(distinct (map tweetId (entries f)) \<and> tweetId r \<notin> loadPostedTweets f \<longrightarrow>
      distinct (map tweetId (entries (snd (savePostedTweet e r f))))) \<and>
   (distinct (map videoId (entries f')) \<and> videoId r' \<notin> loadPostedVideos f' \<longrightarrow>
      distinct (map videoId (entries (snd (savePostedVideo e r' f'))))) \<and>
   (distinct (map tweetId (entries (postedTweetsFile w))) \<longrightarrow>
      distinct (map tweetId (entries (postedTweetsFile (snd (tweetRun e w)))))) \<and>
   (distinct (map videoId (entries (postedVideosFile w))) \<longrightarrow>
      distinct (map videoId (entries (postedVideosFile (snd (videoRun e arg w))))))"
proof -
  have a: "distinct (map tweetId (entries f)) \<and> tweetId r \<notin> loadPostedTweets f \<longrightarrow>
      distinct (map tweetId (entries (snd (savePostedTweet e r f))))"
    using savePosted_distinct [of tweetId f r 1000 "writeFileOk e"]
    by (simp add: savePostedTweet_def loadPostedTweets_def)
  have b: "distinct (map videoId (entries f')) \<and> videoId r' \<notin> loadPostedVideos f' \<longrightarrow>
      distinct (map videoId (entries (snd (savePostedVideo e r' f'))))"
    using savePosted_distinct [of videoId f' r' 100 "writeFileOk e"]
    by (simp add: savePostedVideo_def loadPostedVideos_def)
  have c: "distinct (map tweetId (entries (postedTweetsFile w))) \<longrightarrow>
      distinct (map tweetId (entries (postedTweetsFile (snd (tweetRun e w)))))"
  proof (cases e w rule: tweetRun_cases)
    case (fetch err)
    then show ?thesis by simp
  next
    case (mintFails post err)
    then show ?thesis by simp
  next
    case (mintOk post tx)
    let ?r = "\<lparr>tweetId = tweet_id post,
       tweetCoinName = ''tokenmetrics#'' @ sliceLast 6 (tweet_id post),
       tweetZoraTransaction = tx, tweetPostedAt = now e\<rparr>"
    have "tweetId ?r \<notin> loadPosted tweetId (postedTweetsFile w)"
      using mintOk(1) by (simp add: loadPostedTweets_def)
    then have "distinct (map tweetId (entries (postedTweetsFile w))) \<longrightarrow>
        distinct (map tweetId (entries (snd (savePosted 1000 (writeFileOk e) ?r (postedTweetsFile w)))))"
      using savePosted_distinct [of tweetId "postedTweetsFile w" ?r 1000 "writeFileOk e"] by blast
    with mintOk(2) show ?thesis by (simp add: savePostedTweet_def)
  qed
  have d: "distinct (map videoId (entries (postedVideosFile w))) \<longrightarrow>
      distinct (map videoId (entries (postedVideosFile (snd (videoRun e arg w)))))"
  proof (cases e arg w rule: videoRun_cases)
    case (target err)
    then show ?thesis by simp
  next
    case (download tv err w1)
    then show ?thesis using download_facts [OF download(2)] by simp
  next
    case (mintFails tv vp tp w1 err w2)
    then show ?thesis
      using download_facts [OF mintFails(2)] handoff_facts [OF mintFails(3)] by simp
  next
    case (mintOk tv vp tp w1 tx w2)
    let ?r = "\<lparr>videoId = video_id tv, videoCoinName = title tv,
       videoZoraTransaction = tx, videoPostedAt = now e\<rparr>"
    have p: "postedVideosFile w2 = postedVideosFile w"
      using download_facts [OF mintOk(2)] handoff_facts [OF mintOk(3)] by simp
    show ?thesis
    proof (cases "specificMode arg")
      case True
      with mintOk(4) p show ?thesis by simp
    next
      case False
      then have "video_id tv \<notin> loadPostedVideos (postedVideosFile w)"
        using mintOk(1) by (rule targetVideo_fresh)
      then have "videoId ?r \<notin> loadPosted videoId (postedVideosFile w)"
        by (simp add: loadPostedVideos_def)
      then have "distinct (map videoId (entries (postedVideosFile w))) \<longrightarrow>
        distinct (map videoId (entries (snd (savePosted 100 (writeFileOk e) ?r (postedVideosFile w)))))"
        using savePosted_distinct [of videoId "postedVideosFile w" ?r 100 "writeFileOk e"] by blast
      with mintOk(4) p False show ?thesis by (simp add: savePostedVideo_def)
    qed
  qed
  from a b c d show ?thesis by (intro conjI)
qed

theorem ledger_ids_distinct_witness:
  "distinct (map tweetId (entries (Records [sampleRecord ''7'']))) \<and>
   tweetId (sampleRecord ''8'') \<notin> loadPostedTweets (Records [sampleRecord ''7'']) \<and>
   distinct (map tweetId (entries (snd (savePostedTweet sampleEnv (sampleRecord ''8'')
      (Records [sampleRecord ''7''])))))"
proof -
  have a: "distinct (map tweetId (entries (Records [sampleRecord ''7''])))"
    by (simp add: entries_def)
  have b: "tweetId (sampleRecord ''8'') \<notin> loadPostedTweets (Records [sampleRecord ''7''])"
    by (simp add: loadPostedTweets_def loadPosted_def readAndParse_def sampleRecord_def)
  from a b show ?thesis
    using ledger_ids_distinct [of "Records [sampleRecord ''7'']" "sampleRecord ''8''" sampleEnv
        NoFile "sampleVideoRecord ''v''" emptyWorld None]
    by (intro conjI) (assumption, assumption, blast)
qed

text \<open>
  The claim as first stated fails: recording an id that is in the ledger stores it twice.
\<close>

theorem ledger_ids_distinct_counterexample:
  "entries (snd (savePostedTweet sampleEnv (sampleRecord ''7'') (Records [sampleRecord ''7''])))
     = [sampleRecord ''7'', sampleRecord ''7''] \<and>
   \<not> distinct (map tweetId (entries (snd (savePostedTweet sampleEnv (sampleRecord ''7'')
      (Records [sampleRecord ''7''])))))"
  by (simp add: savePostedTweet_def savePosted_def saveBody_def readAndParse_def entries_def
      sampleEnv_def)

end
